theory Spec2Isabelle
  imports Main "HOL-Library.Multiset"
begin

section \<open>The object store of miniflow\<close>

text \<open>
  Nodes of \<^verbatim>\<open>miniflow.py\<close> are Python objects compared by identity. A node reference
  is its index in the store (a list of node objects); constructing a node appends to the
  store. The class of an object is its \<open>kind\<close>; \<open>Base\<close> is the class \<^verbatim>\<open>Node\<close> itself.

  The value slot \<^verbatim>\<open>self.value\<close> is \<open>'v option\<close>: \<open>None\<close> is Python's \<^verbatim>\<open>None\<close>, and \<open>'v\<close>
  is the type of every other value (number or array).
\<close>

datatype kind = Base | Input | Add | Linear | Sigmoid

record 'v node =
  kind :: kind
  inbound_nodes :: "nat list"
  outbound_nodes :: "nat list"
  val :: "'v option"

type_synonym 'v heap = "'v node list"

text \<open>
  Python's exceptions, as far as the code meets them. \<^verbatim>\<open>raise NotImplemented\<close> in \<^verbatim>\<open>Node.forward\<close>
  raises TypeError: \<^verbatim>\<open>NotImplemented\<close> is the constant that binary operators return, not an
  exception class, and \<^verbatim>\<open>raise\<close> of an object that is no exception raises TypeError. The
  exception class for a method left to the subclasses is \<open>NotImplementedError\<close>; no statement
  of the repository raises it. An operand that is \<^verbatim>\<open>None\<close> raises TypeError as well, a failed
  \<^verbatim>\<open>remove\<close> on a set KeyError, a list index out of range IndexError. \<open>ValueError\<close> is left to
  the numeric library.
\<close>

datatype error = NotImplementedError | KeyError | TypeError | IndexError | ValueError

text \<open>An operation returns its result or the exception raised, and the store as it is then.\<close>

type_synonym ('a, 'v) res = "(error + 'a) \<times> 'v heap"

subsection \<open>\<^verbatim>\<open>Node.__init__\<close> and the constructors of the subclasses\<close>

text \<open>
  \<^verbatim>\<open>Node.__init__(self, inbound_nodes)\<close> stores the list, starts with no successor, appends
  \<open>self\<close> to \<^verbatim>\<open>n.outbound_nodes\<close> for each \<open>n\<close> of the list in turn, and sets the value to \<^verbatim>\<open>None\<close>.
  The default argument \<^verbatim>\<open>[]\<close> is one list shared by all nodes made without predecessors; no
  code of the repository changes it, so every such node has the empty list.
\<close>

definition add_outbound :: "nat \<Rightarrow> nat \<Rightarrow> 'v heap \<Rightarrow> 'v heap" where
  "add_outbound self n h = h[n := (h ! n)\<lparr>outbound_nodes := outbound_nodes (h ! n) @ [self]\<rparr>]"

definition Node_init :: "kind \<Rightarrow> nat list \<Rightarrow> 'v heap \<Rightarrow> 'v heap \<times> nat" where
  "Node_init k inbound h =
     (let self = length h;
          h1 = h @ [\<lparr>kind = k, inbound_nodes = inbound, outbound_nodes = [], val = None\<rparr>]
      in (fold (add_outbound self) inbound h1, self))"

definition new_node :: "nat list \<Rightarrow> 'v heap \<Rightarrow> 'v heap \<times> nat" where
  "new_node inbound h = Node_init Base inbound h"

definition new_input :: "'v heap \<Rightarrow> 'v heap \<times> nat" where
  "new_input h = Node_init Input [] h"

definition new_add :: "nat \<Rightarrow> nat \<Rightarrow> 'v heap \<Rightarrow> 'v heap \<times> nat" where
  "new_add x y h = Node_init Add [x, y] h"

definition new_linear :: "nat \<Rightarrow> nat \<Rightarrow> nat \<Rightarrow> 'v heap \<Rightarrow> 'v heap \<times> nat" where
  "new_linear inputs weights bias h = Node_init Linear [inputs, weights, bias] h"

definition new_sigmoid :: "nat \<Rightarrow> 'v heap \<Rightarrow> 'v heap \<times> nat" where
  "new_sigmoid node h = Node_init Sigmoid [node] h"

subsection \<open>The \<^verbatim>\<open>forward\<close> methods\<close>

text \<open>
  The arithmetic of the values (\<^verbatim>\<open>+\<close>, unary \<^verbatim>\<open>-\<close>, \<^verbatim>\<open>/\<close>, \<^verbatim>\<open>np.dot\<close>, \<^verbatim>\<open>np.exp\<close>, the float
  literal \<^verbatim>\<open>1.\<close>) belongs to Python and numpy, not to this repository: it is a parameter.
  Each operation may raise (a shape mismatch).
\<close>

record 'v tensor_math =
  tm_add :: "'v \<Rightarrow> 'v \<Rightarrow> error + 'v"
  tm_div :: "'v \<Rightarrow> 'v \<Rightarrow> error + 'v"
  tm_neg :: "'v \<Rightarrow> error + 'v"
  tm_dot :: "'v \<Rightarrow> 'v \<Rightarrow> error + 'v"
  tm_exp :: "'v \<Rightarrow> error + 'v"
  tm_one :: "'v"

definition bind_err :: "error + 'a \<Rightarrow> ('a \<Rightarrow> error + 'b) \<Rightarrow> error + 'b" where
  "bind_err r f = (case r of Inl e \<Rightarrow> Inl e | Inr x \<Rightarrow> f x)"

text \<open>\<^verbatim>\<open>xs[i]\<close> raises IndexError out of range; an operand that is \<^verbatim>\<open>None\<close> raises TypeError.\<close>

definition index :: "'a list \<Rightarrow> nat \<Rightarrow> error + 'a" where
  "index xs i = (if i < length xs then Inr (xs ! i) else Inl IndexError)"

definition operand :: "'v option \<Rightarrow> error + 'v" where
  "operand x = (case x of None \<Rightarrow> Inl TypeError | Some a \<Rightarrow> Inr a)"

definition set_value :: "nat \<Rightarrow> 'v option \<Rightarrow> 'v heap \<Rightarrow> 'v heap" where
  "set_value n v h = h[n := (h ! n)\<lparr>val := v\<rparr>]"

text \<open>Completes a method whose last statement is \<^verbatim>\<open>self.value = <expression>\<close>.\<close>

definition assign_value :: "nat \<Rightarrow> error + 'v \<Rightarrow> 'v heap \<Rightarrow> (unit, 'v) res" where
  "assign_value n r h =
     (case r of Inl e \<Rightarrow> (Inl e, h) | Inr v \<Rightarrow> (Inr (), set_value n (Some v) h))"

text \<open>
  \<^verbatim>\<open>Node.forward\<close> is the one statement \<^verbatim>\<open>raise NotImplemented\<close>: it raises TypeError and
  leaves the store as it is.
\<close>

definition Node_forward :: "'v heap \<Rightarrow> nat \<Rightarrow> (unit, 'v) res" where
  "Node_forward h n = (Inl TypeError, h)"

definition Input_forward :: "'v heap \<Rightarrow> nat \<Rightarrow> 'v option \<Rightarrow> (unit, 'v) res" where
  "Input_forward h n v = (if v \<noteq> None then (Inr (), set_value n v h) else (Inr (), h))"

definition Add_value :: "'v tensor_math \<Rightarrow> 'v heap \<Rightarrow> nat \<Rightarrow> error + 'v" where
  "Add_value tm h n =
     bind_err (index (inbound_nodes (h ! n)) 0) (\<lambda>x.
     bind_err (index (inbound_nodes (h ! n)) 1) (\<lambda>y.
     bind_err (operand (val (h ! x))) (\<lambda>xvalue.
     bind_err (operand (val (h ! y))) (\<lambda>yvalue.
       tm_add tm xvalue yvalue))))"

definition Add_forward :: "'v tensor_math \<Rightarrow> 'v heap \<Rightarrow> nat \<Rightarrow> (unit, 'v) res" where
  "Add_forward tm h n = assign_value n (Add_value tm h n) h"

definition Linear_value :: "'v tensor_math \<Rightarrow> 'v heap \<Rightarrow> nat \<Rightarrow> error + 'v" where
  "Linear_value tm h n =
     bind_err (index (inbound_nodes (h ! n)) 0) (\<lambda>i.
     bind_err (index (inbound_nodes (h ! n)) 1) (\<lambda>w.
     bind_err (index (inbound_nodes (h ! n)) 2) (\<lambda>b.
     bind_err (operand (val (h ! i))) (\<lambda>inputs.
     bind_err (operand (val (h ! w))) (\<lambda>weights.
     bind_err (tm_dot tm inputs weights) (\<lambda>d.
     bind_err (operand (val (h ! b))) (\<lambda>bias.
       tm_add tm d bias)))))))"

definition Linear_forward :: "'v tensor_math \<Rightarrow> 'v heap \<Rightarrow> nat \<Rightarrow> (unit, 'v) res" where
  "Linear_forward tm h n = assign_value n (Linear_value tm h n) h"

definition sigmoid :: "'v tensor_math \<Rightarrow> 'v \<Rightarrow> error + 'v" where
  "sigmoid tm x =
     bind_err (tm_neg tm x) (\<lambda>a.
     bind_err (tm_exp tm a) (\<lambda>b.
     bind_err (tm_add tm (tm_one tm) b) (\<lambda>c.
       tm_div tm (tm_one tm) c)))"

definition Sigmoid_value :: "'v tensor_math \<Rightarrow> 'v heap \<Rightarrow> nat \<Rightarrow> error + 'v" where
  "Sigmoid_value tm h n =
     bind_err (index (inbound_nodes (h ! n)) 0) (\<lambda>p.
     bind_err (operand (val (h ! p))) (\<lambda>x.
       sigmoid tm x))"

definition Sigmoid_forward :: "'v tensor_math \<Rightarrow> 'v heap \<Rightarrow> nat \<Rightarrow> (unit, 'v) res" where
  "Sigmoid_forward tm h n = assign_value n (Sigmoid_value tm h n) h"

text \<open>The call \<^verbatim>\<open>n.forward()\<close>, dispatched on the class of \<open>n\<close>, with no argument.\<close>

definition forward :: "'v tensor_math \<Rightarrow> 'v heap \<Rightarrow> nat \<Rightarrow> (unit, 'v) res" where
  "forward tm h n =
     (case kind (h ! n) of
        Base \<Rightarrow> Node_forward h n
      | Input \<Rightarrow> Input_forward h n None
      | Add \<Rightarrow> Add_forward tm h n
      | Linear \<Rightarrow> Linear_forward tm h n
      | Sigmoid \<Rightarrow> Sigmoid_forward tm h n)"

subsection \<open>\<^verbatim>\<open>forward_pass\<close>\<close>

fun forward_all :: "'v tensor_math \<Rightarrow> 'v heap \<Rightarrow> nat list \<Rightarrow> (unit, 'v) res" where
  "forward_all tm h [] = (Inr (), h)"
| "forward_all tm h (n # ns) =
     (case forward tm h n of
        (Inl e, h') \<Rightarrow> (Inl e, h')
      | (Inr u, h') \<Rightarrow> forward_all tm h' ns)"

definition forward_pass :: "'v tensor_math \<Rightarrow> 'v heap \<Rightarrow> nat \<Rightarrow> nat list \<Rightarrow> ('v option, 'v) res" where
  "forward_pass tm h output_node sorted_nodes =
     (case forward_all tm h sorted_nodes of
        (Inl e, h') \<Rightarrow> (Inl e, h')
      | (Inr u, h') \<Rightarrow> (Inr (val (h' ! output_node)), h'))"

subsection \<open>\<^verbatim>\<open>topological_sort\<close>\<close>

text \<open>
  The dictionary \<open>G\<close> maps a node to its pair of sets \<^verbatim>\<open>{'in': ..., 'out': ...}\<close>.
  The feed dictionary is an association list in key order; its values are Python values,
  so they may be \<^verbatim>\<open>None\<close>.
\<close>

type_synonym graph = "nat \<rightharpoonup> (nat set \<times> nat set)"

type_synonym 'v feed = "(nat \<times> 'v option) list"

definition ensure :: "nat \<Rightarrow> graph \<Rightarrow> graph" where
  "ensure n G = (if G n = None then G(n \<mapsto> ({}, {})) else G)"

text \<open>
  The body of the inner loop of the first phase, for one \<open>m\<close> of \<^verbatim>\<open>n.outbound_nodes\<close>.
  \<open>G[n]\<close> exists there, since the loop runs after \<open>n\<close> was entered.
\<close>

definition link :: "nat \<Rightarrow> nat \<Rightarrow> graph \<Rightarrow> graph" where
  "link n m G =
     (let G1 = ensure m G;
          G2 = G1(n \<mapsto> (fst (the (G1 n)), insert m (snd (the (G1 n)))))
      in G2(m \<mapsto> (insert n (fst (the (G2 m))), snd (the (G2 m)))))"

text \<open>
  The first loop. It has no visited check: every successor is appended to the queue each
  time its predecessor is taken, and the loop may run forever (the result is then \<open>None\<close>).
\<close>

partial_function (option) discover :: "'v heap \<Rightarrow> nat list \<Rightarrow> graph \<Rightarrow> graph option" where
  "discover h nodes G =
     (case nodes of
        [] \<Rightarrow> Some G
      | n # rest \<Rightarrow>
          discover h (rest @ outbound_nodes (h ! n))
            (fold (link n) (outbound_nodes (h ! n)) (ensure n G)))"

text \<open>
  The inner loop of the second phase: the two \<^verbatim>\<open>remove\<close> calls raise KeyError when the
  element is absent, as does \<open>G[k]\<close> for an absent key.
\<close>

fun relax :: "nat \<Rightarrow> nat list \<Rightarrow> graph \<Rightarrow> nat list \<Rightarrow> error + (graph \<times> nat list)" where
  "relax n [] G S = Inr (G, S)"
| "relax n (m # ms) G S =
     (case G n of
        None \<Rightarrow> Inl KeyError
      | Some (i, out) \<Rightarrow>
          if m \<notin> out then Inl KeyError
          else let G1 = G(n \<mapsto> (i, out - {m})) in
            (case G1 m of
               None \<Rightarrow> Inl KeyError
             | Some (i', out') \<Rightarrow>
                 if n \<notin> i' then Inl KeyError
                 else let G2 = G1(m \<mapsto> (i' - {n}, out'));
                          S' = (if i' - {n} = {} then List.insert m S else S)
                      in relax n ms G2 S'))"

text \<open>
  \<^verbatim>\<open>if isinstance(n, Input): n.value = feed_dict[n]\<close>; the lookup raises KeyError for a node
  that is not a key.
\<close>

definition feed_value :: "'v feed \<Rightarrow> 'v heap \<Rightarrow> nat \<Rightarrow> error + 'v heap" where
  "feed_value feed_dict h n =
     (if kind (h ! n) = Input
      then (case map_of feed_dict n of
              None \<Rightarrow> Inl KeyError
            | Some v \<Rightarrow> Inr (set_value n v h))
      else Inr h)"

text \<open>
  The second loop. \<^verbatim>\<open>S.pop()\<close> removes an arbitrary element of the set. The set \<open>S\<close> is kept as
  a list, and the element taken in the \<open>k\<close>-th iteration is the one at position
  \<open>tie k mod length S\<close>: every possible behaviour of \<^verbatim>\<open>pop\<close> is the behaviour for some \<open>tie\<close>.
  An exception ends the call with the store as it is then.
\<close>

partial_function (option) drain ::
  "(nat \<Rightarrow> nat) \<Rightarrow> 'v feed \<Rightarrow> nat list \<Rightarrow> nat list \<Rightarrow> graph \<Rightarrow> 'v heap \<Rightarrow> (nat list, 'v) res option"
where
  "drain tie feed_dict S L G h =
     (if S = [] then Some (Inr L, h)
      else let n = S ! (tie (length L) mod length S) in
        (case feed_value feed_dict h n of
           Inl e \<Rightarrow> Some (Inl e, h)
         | Inr h1 \<Rightarrow>
             (case relax n (outbound_nodes (h1 ! n)) G (removeAll n S) of
                Inl e \<Rightarrow> Some (Inl e, h1)
              | Inr (G', S') \<Rightarrow> drain tie feed_dict S' (L @ [n]) G' h1)))"

text \<open>The whole function: the result is \<open>None\<close> when the first loop does not terminate.\<close>

definition topological_sort :: "(nat \<Rightarrow> nat) \<Rightarrow> 'v heap \<Rightarrow> 'v feed \<Rightarrow> (nat list, 'v) res option" where
  "topological_sort tie h feed_dict =
     (let input_nodes = map fst feed_dict in
        (case discover h input_nodes Map.empty of
           None \<Rightarrow> None
         | Some G \<Rightarrow> drain tie feed_dict (remdups input_nodes) [] G h))"

subsection \<open>A run\<close>

text \<open>
  The two calls of a client: \<^verbatim>\<open>forward_pass(output_node, topological_sort(feed_dict))\<close>.
\<close>

definition run_graph ::
  "'v tensor_math \<Rightarrow> (nat \<Rightarrow> nat) \<Rightarrow> 'v heap \<Rightarrow> 'v feed \<Rightarrow> nat \<Rightarrow> ('v option, 'v) res option" where
  "run_graph tm tie h feed_dict output_node =
     (case topological_sort tie h feed_dict of
        None \<Rightarrow> None
      | Some (Inl e, h1) \<Rightarrow> Some (Inl e, h1)
      | Some (Inr sorted_nodes, h1) \<Rightarrow> Some (forward_pass tm h1 output_node sorted_nodes))"

section \<open>The graph of a store\<close>

text \<open>
  The edges are the \<^verbatim>\<open>outbound_nodes\<close> links, the only links \<^verbatim>\<open>topological_sort\<close> reads. The graph
  of a feed dictionary is what can be reached from its keys.
\<close>

definition edges :: "'v heap \<Rightarrow> (nat \<times> nat) set" where
  "edges h = {(n, m). n < length h \<and> m \<in> set (outbound_nodes (h ! n))}"

definition reachable :: "'v heap \<Rightarrow> nat list \<Rightarrow> nat set" where
  "reachable h roots = (edges h)\<^sup>* `` set roots"

text \<open>The two sets of a node in the dictionary \<open>G\<close>, empty for a node that is not a key.\<close>

definition g_in :: "graph \<Rightarrow> nat \<Rightarrow> nat set" where
  "g_in G n = (case G n of None \<Rightarrow> {} | Some e \<Rightarrow> fst e)"

definition g_out :: "graph \<Rightarrow> nat \<Rightarrow> nat set" where
  "g_out G n = (case G n of None \<Rightarrow> {} | Some e \<Rightarrow> snd e)"

section \<open>Invariant and result of the second loop\<close>

text \<open>\<open>same_links h h0\<close>: the stores have the same nodes with the same class and links.\<close>

definition same_links :: "'v heap \<Rightarrow> 'v heap \<Rightarrow> bool" where
  "same_links h h0 =
     (length h = length h0 \<and>
      (\<forall>n<length h0. kind (h ! n) = kind (h0 ! n)
         \<and> inbound_nodes (h ! n) = inbound_nodes (h0 ! n)
         \<and> outbound_nodes (h ! n) = outbound_nodes (h0 ! n)))"

text \<open>The value slots after the Input nodes of \<open>X\<close> have been fed.\<close>

definition fed_values :: "'v heap \<Rightarrow> 'v feed \<Rightarrow> nat set \<Rightarrow> 'v heap \<Rightarrow> bool" where
  "fed_values h0 feed_dict X h =
     (\<forall>n<length h0. val (h ! n) =
        (if n \<in> X \<and> kind (h0 ! n) = Input then the (map_of feed_dict n) else val (h0 ! n)))"

text \<open>Every predecessor (within \<open>A\<close>) of an element of \<open>L\<close> stands earlier in \<open>L\<close>.\<close>

definition preds_first :: "'v heap \<Rightarrow> nat set \<Rightarrow> nat list \<Rightarrow> bool" where
  "preds_first h0 A L =
     (\<forall>i<length L. \<forall>p\<in>A. L ! i \<in> set (outbound_nodes (h0 ! p)) \<longrightarrow> p \<in> set (take i L))"

text \<open>
  The invariant of the second loop, for the set \<open>A\<close> of discovered nodes: the emitted nodes
  have lost their outgoing edges, the remaining incoming edges of a node come from the nodes
  not yet emitted, and \<open>S\<close> holds the nodes not yet emitted that have no incoming edge left.
\<close>

definition drain_inv ::
  "'v heap \<Rightarrow> 'v feed \<Rightarrow> nat set \<Rightarrow> nat list \<Rightarrow> nat list \<Rightarrow> graph \<Rightarrow> 'v heap \<Rightarrow> bool" where
  "drain_inv h0 feed_dict A S L G h =
     (same_links h h0 \<and> distinct L \<and> set L \<subseteq> A \<and> dom G = A
      \<and> (\<forall>n\<in>A. g_out G n = (if n \<in> set L then {} else set (outbound_nodes (h0 ! n))))
      \<and> (\<forall>m\<in>A. g_in G m = {p \<in> A. m \<in> set (outbound_nodes (h0 ! p))} - set L)
      \<and> set S = {m \<in> A. m \<notin> set L \<and> g_in G m = {}}
      \<and> preds_first h0 A L
      \<and> (\<forall>n\<in>set L. distinct (outbound_nodes (h0 ! n)))
      \<and> fed_values h0 feed_dict (set L) h)"

text \<open>What the second loop returns: a KeyError, or a list of all of \<open>A\<close> in topological order.\<close>

definition drain_post :: "'v heap \<Rightarrow> 'v feed \<Rightarrow> nat set \<Rightarrow> (nat list, 'v) res \<Rightarrow> bool" where
  "drain_post h0 feed_dict A r =
     (case r of
        (Inl e, h') \<Rightarrow> e = KeyError \<and> same_links h' h0
           \<and> (\<exists>n\<in>A. \<not> distinct (outbound_nodes (h0 ! n)))
      | (Inr L, h') \<Rightarrow> distinct L \<and> set L = A \<and> preds_first h0 A L \<and> same_links h' h0
           \<and> fed_values h0 feed_dict A h' \<and> (\<forall>n\<in>A. distinct (outbound_nodes (h0 ! n))))"

section \<open>Well linked stores\<close>

text \<open>
  What the constructors establish: links point to existing nodes, \<open>m\<close> occurs in
  \<^verbatim>\<open>p.outbound_nodes\<close> as often as \<open>p\<close> occurs in \<^verbatim>\<open>m.inbound_nodes\<close>, and an Input node has no
  predecessor. The keys of a feed dictionary are distinct Input nodes of the store.
\<close>

definition wf_heap :: "'v heap \<Rightarrow> bool" where
  "wf_heap h =
     ((\<forall>n<length h. \<forall>m\<in>set (outbound_nodes (h ! n)). m < length h)
      \<and> (\<forall>n<length h. \<forall>p\<in>set (inbound_nodes (h ! n)). p < length h)
      \<and> (\<forall>p<length h. \<forall>m<length h.
            count_list (outbound_nodes (h ! p)) m = count_list (inbound_nodes (h ! m)) p)
      \<and> (\<forall>n<length h. kind (h ! n) = Input \<longrightarrow> inbound_nodes (h ! n) = []))"

definition feed_inputs :: "'v heap \<Rightarrow> 'v feed \<Rightarrow> bool" where
  "feed_inputs h feed_dict =
     (distinct (map fst feed_dict)
      \<and> (\<forall>k\<in>set (map fst feed_dict). k < length h \<and> kind (h ! k) = Input))"

definition graph_edges :: "'v heap \<Rightarrow> 'v feed \<Rightarrow> (nat \<times> nat) set" where
  "graph_edges h feed_dict = {(p, m) \<in> edges h. p \<in> reachable h (map fst feed_dict)}"

text \<open>A node from which a cycle of the graph can be reached.\<close>

definition reaches_cycle :: "'v heap \<Rightarrow> nat \<Rightarrow> bool" where
  "reaches_cycle h n = (\<exists>c. (n, c) \<in> (edges h)\<^sup>* \<and> (c, c) \<in> (edges h)\<^sup>+)"

text \<open>
  \<open>only_feeds_written h feed_dict h'\<close>: the store \<open>h'\<close> differs from \<open>h\<close> at most in value slots of
  Input nodes that are keys of the feed dictionary, which hold the value fed.
\<close>

definition only_feeds_written :: "'v heap \<Rightarrow> 'v feed \<Rightarrow> 'v heap \<Rightarrow> bool" where
  "only_feeds_written h feed_dict h' =
     (same_links h' h \<and>
      (\<forall>n<length h. val (h' ! n) = val (h ! n)
          \<or> (kind (h ! n) = Input \<and> map_of feed_dict n = Some (val (h' ! n)))))"

text \<open>
  What \<^verbatim>\<open>n.forward()\<close> leaves in the value slot of \<open>n\<close> when it returns (for an Input node, what
  is there), or the exception it raises.
\<close>

definition forward_value :: "'v tensor_math \<Rightarrow> 'v heap \<Rightarrow> nat \<Rightarrow> error + 'v option" where
  "forward_value tm h n =
     (case kind (h ! n) of
        Base \<Rightarrow> Inl TypeError
      | Input \<Rightarrow> Inr (val (h ! n))
      | Add \<Rightarrow> bind_err (Add_value tm h n) (\<lambda>v. Inr (Some v))
      | Linear \<Rightarrow> bind_err (Linear_value tm h n) (\<lambda>v. Inr (Some v))
      | Sigmoid \<Rightarrow> bind_err (Sigmoid_value tm h n) (\<lambda>v. Inr (Some v)))"

text \<open>
  \<open>settled tm h feed_dict h1\<close>: \<open>h1\<close> is \<open>h\<close> with the inputs fed and every reachable node holding
  the value its \<^verbatim>\<open>forward\<close> computes from the values in \<open>h1\<close>.
\<close>

definition settled :: "'v tensor_math \<Rightarrow> 'v heap \<Rightarrow> 'v feed \<Rightarrow> 'v heap \<Rightarrow> bool" where
  "settled tm h feed_dict h1 =
     (same_links h1 h
      \<and> (\<forall>n<length h. n \<notin> reachable h (map fst feed_dict) \<longrightarrow> val (h1 ! n) = val (h ! n))
      \<and> (\<forall>n\<in>reachable h (map fst feed_dict).
            kind (h ! n) = Input \<longrightarrow> val (h1 ! n) = the (map_of feed_dict n))
      \<and> (\<forall>n\<in>reachable h (map fst feed_dict). forward_value tm h1 n = Inr (val (h1 ! n))))"

section \<open>Example stores\<close>

text \<open>
  Values for the examples are integers, with an arithmetic that has \<^verbatim>\<open>+\<close>, unary \<^verbatim>\<open>-\<close> and the
  product of scalars; the operations that leave the integers raise.
\<close>

definition store0 :: "int heap" where
  "store0 = [\<lparr>kind = Input, inbound_nodes = [], outbound_nodes = [], val = Some 7\<rparr>]"

definition base0 :: "int heap" where
  "base0 = [\<lparr>kind = Base, inbound_nodes = [], outbound_nodes = [], val = Some 7\<rparr>]"

definition int_math :: "int tensor_math" where
  "int_math = \<lparr>tm_add = (\<lambda>a b. Inr (a + b)), tm_div = (\<lambda>a b. Inl TypeError),
     tm_neg = (\<lambda>a. Inr (- a)), tm_dot = (\<lambda>a b. Inr (a * b)),
     tm_exp = (\<lambda>a. Inl TypeError), tm_one = 1\<rparr>"

text \<open>
  The store after \<^verbatim>\<open>a = Input(); b = Input(); f = Add(a, b)\<close>, and a feed of 5 and 10.
  \<open>first_ready\<close> and \<open>last_ready\<close> are two ways for \<^verbatim>\<open>S.pop()\<close> to choose.
\<close>

definition add_graph :: "int heap" where
  "add_graph =
     [\<lparr>kind = Input, inbound_nodes = [], outbound_nodes = [2], val = None\<rparr>,
      \<lparr>kind = Input, inbound_nodes = [], outbound_nodes = [2], val = None\<rparr>,
      \<lparr>kind = Add, inbound_nodes = [0, 1], outbound_nodes = [], val = None\<rparr>]"

definition add_feed :: "int feed" where
  "add_feed = [(0, Some 5), (1, Some 10)]"

definition first_ready :: "nat \<Rightarrow> nat" where
  "first_ready k = 0"

definition last_ready :: "nat \<Rightarrow> nat" where
  "last_ready k = 1"

text \<open>The example store once its inputs are fed.\<close>

definition fed_add_graph :: "int heap" where
  "fed_add_graph =
     [\<lparr>kind = Input, inbound_nodes = [], outbound_nodes = [2], val = Some 5\<rparr>,
      \<lparr>kind = Input, inbound_nodes = [], outbound_nodes = [2], val = Some 10\<rparr>,
      \<lparr>kind = Add, inbound_nodes = [0, 1], outbound_nodes = [], val = None\<rparr>]"

text \<open>The store after \<^verbatim>\<open>a = Input(); f = Add(a, a)\<close>.\<close>

definition twice_graph :: "int heap" where
  "twice_graph =
     [\<lparr>kind = Input, inbound_nodes = [], outbound_nodes = [1, 1], val = None\<rparr>,
      \<lparr>kind = Add, inbound_nodes = [0, 0], outbound_nodes = [], val = None\<rparr>]"

definition twice_feed :: "int feed" where
  "twice_feed = [(0, Some 5)]"

text \<open>Stores with a cycle (made by assigning to \<^verbatim>\<open>outbound_nodes\<close> after construction).\<close>

definition loop_graph :: "int heap" where
  "loop_graph =
     [\<lparr>kind = Input, inbound_nodes = [], outbound_nodes = [1], val = None\<rparr>,
      \<lparr>kind = Add, inbound_nodes = [0, 2], outbound_nodes = [2], val = None\<rparr>,
      \<lparr>kind = Sigmoid, inbound_nodes = [1], outbound_nodes = [1], val = None\<rparr>]"

definition loop_feed :: "int feed" where
  "loop_feed = [(0, Some 5)]"

text \<open>A node that is its own successor.\<close>

definition self_loop_graph :: "int heap" where
  "self_loop_graph =
     [\<lparr>kind = Input, inbound_nodes = [], outbound_nodes = [1], val = None\<rparr>,
      \<lparr>kind = Add, inbound_nodes = [0, 1], outbound_nodes = [1], val = None\<rparr>]"

section \<open>The forward methods of Input and Node\<close>

text \<open>
  C5. \<^verbatim>\<open>Input.forward\<close> called with a value \<open>w\<close> (not \<^verbatim>\<open>None\<close>) returns normally and leaves
  \<open>w\<close> in the value slot of the node; called with no value it returns normally and the
  store, so also the value slot, is as before.
\<close>

theorem Input_forward_value:
  assumes "n < length h"
  shows "fst (Input_forward h n (Some w)) = Inr ()
       \<and> val (snd (Input_forward h n (Some w)) ! n) = Some w
       \<and> Input_forward h n None = (Inr (), h)
       \<and> val (snd (Input_forward h n None) ! n) = val (h ! n)"
  using assms by (simp add: Input_forward_def set_value_def)

theorem Input_forward_value_witness:
  "(0::nat) < length store0
   \<and> val (snd (Input_forward store0 0 (Some 3)) ! 0) = Some 3
   \<and> val (snd (Input_forward store0 0 None) ! 0) = Some 7"
proof -
  have len: "(0::nat) < length store0" by (simp add: store0_def)
  have "val (store0 ! 0) = Some 7" by (simp add: store0_def)
  with len Input_forward_value [OF len, of 3] show ?thesis by simp
qed

text \<open>
  C6. \<^verbatim>\<open>forward\<close> of the class \<^verbatim>\<open>Node\<close> does not return normally and leaves the store, so
  every value slot, as it is; but the exception that ends it is TypeError, not
  NotImplementedError: the statement is \<^verbatim>\<open>raise NotImplemented\<close>, and \<^verbatim>\<open>NotImplemented\<close> is not
  an exception. For the object made by \<^verbatim>\<open>Node()\<close> (here with a value slot already written),
  \<^verbatim>\<open>n.forward()\<close> and \<^verbatim>\<open>forward_pass\<close> end with that TypeError.
\<close>

theorem Node_forward_raises_TypeError:
  "Node_forward h n = (Inl TypeError, h)
   \<and> fst (Node_forward h n) \<noteq> Inl NotImplementedError
   \<and> kind (base0 ! 0) = Base
   \<and> forward tm base0 0 = (Inl TypeError, base0)
   \<and> forward_pass tm base0 0 [0] = (Inl TypeError, base0)"
  by (simp add: Node_forward_def forward_def forward_pass_def base0_def)

section \<open>The first loop of \<^verbatim>\<open>topological_sort\<close>\<close>

lemma ensure_facts:
  "dom (ensure n G) = insert n (dom G)" "g_in (ensure n G) = g_in G" "g_out (ensure n G) = g_out G"
  by (auto simp: ensure_def g_in_def g_out_def fun_eq_iff split: if_splits)

lemma link_facts:
  assumes "n \<in> dom G"
  shows "dom (link n m G) = insert m (dom G)"
    and "g_out (link n m G) = (g_out G)(n := insert m (g_out G n))"
    and "g_in (link n m G) = (g_in G)(m := insert n (g_in G m))"
  using assms
  by (auto simp: link_def ensure_def Let_def g_in_def g_out_def fun_eq_iff split: if_splits option.splits)

lemma fold_link_facts:
  assumes "n \<in> dom G"
  shows "dom (fold (link n) ms G) = dom G \<union> set ms
       \<and> g_out (fold (link n) ms G) = (g_out G)(n := g_out G n \<union> set ms)
       \<and> g_in (fold (link n) ms G) = (\<lambda>x. if x \<in> set ms then insert n (g_in G x) else g_in G x)"
  using assms
proof (induction ms arbitrary: G)
  case Nil
  then show ?case by (simp add: fun_eq_iff)
next
  case (Cons m ms)
  have d: "n \<in> dom (link n m G)" using Cons.prems by (simp add: link_facts)
  show ?case
    using Cons.IH [OF d] Cons.prems
    by (auto simp: link_facts fun_eq_iff)
qed

lemma reach_step:
  assumes "n < length h"
  shows "(edges h)\<^sup>* `` {n} = insert n ((edges h)\<^sup>* `` set (outbound_nodes (h ! n)))"
proof -
  have e: "edges h `` {n} = set (outbound_nodes (h ! n))"
    using assms by (auto simp: edges_def)
  have "(edges h)\<^sup>* `` {n} = insert n ((edges h)\<^sup>* `` (edges h `` {n}))"
    by (auto elim: converse_rtranclE intro: converse_rtrancl_into_rtrancl)
  then show ?thesis by (simp add: e)
qed

lemma reachable_Cons:
  assumes "n < length h"
  shows "reachable h (n # rest) = insert n (reachable h (rest @ outbound_nodes (h ! n)))"
proof -
  have "reachable h (n # rest) = (edges h)\<^sup>* `` {n} \<union> (edges h)\<^sup>* `` set rest"
    by (auto simp: reachable_def)
  also have "\<dots> = insert n ((edges h)\<^sup>* `` set (outbound_nodes (h ! n))) \<union> (edges h)\<^sup>* `` set rest"
    by (simp add: reach_step [OF assms])
  also have "\<dots> = insert n (reachable h (rest @ outbound_nodes (h ! n)))"
    by (auto simp: reachable_def)
  finally show ?thesis .
qed

text \<open>
  On a set of nodes closed under successors whose converse edge relation is well-founded, the
  loop terminates: a step replaces the head of the queue by its successors, which decreases
  the queue in the multiset order. The result has a key for every reachable node, with all its
  successors and all its reachable predecessors.
\<close>

lemma discover_returns:
  assumes wf: "wf r"
    and closed: "\<forall>n\<in>A. n < length h \<and> (\<forall>m\<in>set (outbound_nodes (h ! n)). m \<in> A \<and> (m, n) \<in> r)"
    and q: "set q \<subseteq> A"
  shows "\<exists>G'. discover h q G = Some G'
           \<and> dom G' = dom G \<union> reachable h q
           \<and> (\<forall>x. g_out G' x = g_out G x \<union> (if x \<in> reachable h q then set (outbound_nodes (h ! x)) else {}))
           \<and> (\<forall>x. g_in G' x = g_in G x \<union> {p \<in> reachable h q. (p, x) \<in> edges h})"
  using q
proof (induction q arbitrary: G rule: wf_induct_rule [OF wf_inv_image [OF wf_mult1 [OF wf], of mset]])
  case (1 q)
  show ?case
  proof (cases q)
    case Nil
    then show ?thesis by (subst discover.simps) (simp add: reachable_def)
  next
    case (Cons n rest)
    let ?ms = "outbound_nodes (h ! n)"
    let ?q' = "rest @ ?ms"
    let ?G1 = "fold (link n) ?ms (ensure n G)"
    have nA: "n \<in> A" using 1 Cons by simp
    then have nlt: "n < length h" and ms: "\<forall>m\<in>set ?ms. m \<in> A \<and> (m, n) \<in> r"
      using closed by auto
    have less: "(?q', q) \<in> inv_image (mult1 r) mset"
      unfolding in_inv_image
      by (rule mult1I [where a = n and ?M0.0 = "mset rest" and K = "mset ?ms"])
        (use Cons ms in auto)
    have sub: "set ?q' \<subseteq> A" using 1(2) Cons ms by auto
    obtain G' where G': "discover h ?q' ?G1 = Some G'"
      "dom G' = dom ?G1 \<union> reachable h ?q'"
      "\<forall>x. g_out G' x = g_out ?G1 x \<union> (if x \<in> reachable h ?q' then set (outbound_nodes (h ! x)) else {})"
      "\<forall>x. g_in G' x = g_in ?G1 x \<union> {p \<in> reachable h ?q'. (p, x) \<in> edges h}"
      using 1(1) [OF less sub, of ?G1] by blast
    have nd: "n \<in> dom (ensure n G)" by (simp add: ensure_facts)
    note ff = fold_link_facts [OF nd, of ?ms, unfolded ensure_facts]
    have R: "reachable h q = insert n (reachable h ?q')"
      using reachable_Cons [OF nlt] Cons by simp
    have msR: "set ?ms \<subseteq> reachable h ?q'" by (auto simp: reachable_def)
    have ed: "\<And>x. (n, x) \<in> edges h \<longleftrightarrow> x \<in> set ?ms" using nlt by (simp add: edges_def)
    have "discover h q G = Some G'" using G'(1) Cons by (subst discover.simps) simp
    moreover have "dom G' = dom G \<union> reachable h q"
      using G'(2) ff R msR by auto
    moreover have "\<forall>x. g_out G' x = g_out G x \<union> (if x \<in> reachable h q then set (outbound_nodes (h ! x)) else {})"
      using G'(3) ff R by auto
    moreover have "\<forall>x. g_in G' x = g_in G x \<union> {p \<in> reachable h q. (p, x) \<in> edges h}"
    proof
      fix x
      show "g_in G' x = g_in G x \<union> {p \<in> reachable h q. (p, x) \<in> edges h}"
        using G'(4) [rule_format, of x] ff R ed [of x] by auto
    qed
    ultimately show ?thesis by blast
  qed
qed

section \<open>The second loop of \<^verbatim>\<open>topological_sort\<close>\<close>

subsection \<open>The inner loop over the successors\<close>

lemma relax_error: "relax n ms G S = Inl e \<Longrightarrow> e = KeyError"
  by (induction ms arbitrary: G S) (auto simp: Let_def split: option.splits if_splits prod.splits)

lemma relax_Inr_distinct:
  "relax n ms G S = Inr (G', S') \<Longrightarrow> set ms \<subseteq> g_out G n \<and> distinct ms"
proof (induction ms arbitrary: G S)
  case Nil
  then show ?case by simp
next
  case (Cons m ms)
  from Cons.prems obtain i out where Gn: "G n = Some (i, out)" and m: "m \<in> out"
    by (auto split: option.splits if_splits)
  let ?G1 = "G(n \<mapsto> (i, out - {m}))"
  from Cons.prems Gn m obtain i' out' where G1m: "?G1 m = Some (i', out')" and n: "n \<in> i'"
    by (auto simp: Let_def split: option.splits if_splits)
  let ?G2 = "?G1(m \<mapsto> (i' - {n}, out'))"
  let ?S' = "if i' - {n} = {} then List.insert m S else S"
  have rec: "relax n ms ?G2 ?S' = Inr (G', S')"
    using Cons.prems Gn m G1m n by (simp add: Let_def)
  have out2: "g_out ?G2 n = out - {m}"
    using G1m by (auto simp: g_out_def split: if_splits)
  have ih: "set ms \<subseteq> g_out ?G2 n \<and> distinct ms" using rec by (rule Cons.IH)
  then have "set ms \<subseteq> out - {m}" "distinct ms" unfolding out2 by blast+
  then show ?case using Gn m by (auto simp: g_out_def)
qed

lemma relax_ok:
  assumes "n \<in> dom G" "distinct ms" "n \<notin> set ms" "set ms \<subseteq> g_out G n"
    and "\<forall>m\<in>set ms. m \<in> dom G \<and> n \<in> g_in G m"
  shows "\<exists>G' S'. relax n ms G S = Inr (G', S') \<and> dom G' = dom G
           \<and> g_out G' = (g_out G)(n := g_out G n - set ms)
           \<and> g_in G' = (\<lambda>x. if x \<in> set ms then g_in G x - {n} else g_in G x)
           \<and> set S' = set S \<union> {m \<in> set ms. g_in G m - {n} = {}}"
  using assms
proof (induction ms arbitrary: G S)
  case Nil
  then show ?case by simp
next
  case (Cons m ms)
  from Cons.prems obtain i out where Gn: "G n = Some (i, out)" by auto
  have m: "m \<in> out" using Cons.prems Gn by (simp add: g_out_def)
  have mn: "m \<noteq> n" using Cons.prems by auto
  let ?G1 = "G(n \<mapsto> (i, out - {m}))"
  from Cons.prems mn obtain i' out' where Gm: "G m = Some (i', out')" by auto
  have n: "n \<in> i'" using Cons.prems Gm by (simp add: g_in_def)
  have G1m: "?G1 m = Some (i', out')" using Gm mn by simp
  let ?G2 = "?G1(m \<mapsto> (i' - {n}, out'))"
  let ?S' = "if i' - {n} = {} then List.insert m S else S"
  have step: "relax n (m # ms) G S = relax n ms ?G2 ?S'"
    using Gn m G1m n by (simp add: Let_def)
  have d2: "dom ?G2 = dom G" using Gn Gm by auto
  have o2: "g_out ?G2 = (g_out G)(n := out - {m})"
    using Gn Gm mn by (auto simp: g_out_def fun_eq_iff)
  have i2: "g_in ?G2 = (g_in G)(m := i' - {n})"
    using Gn Gm mn by (auto simp: g_in_def fun_eq_iff)
  have gon: "g_out G n = out" using Gn by (simp add: g_out_def)
  have gim: "g_in G m = i'" using Gm by (simp add: g_in_def)
  have pre: "n \<in> dom ?G2" "distinct ms" "n \<notin> set ms" "set ms \<subseteq> g_out ?G2 n"
    "\<forall>x\<in>set ms. x \<in> dom ?G2 \<and> n \<in> g_in ?G2 x"
    using Cons.prems d2 o2 i2 gon by auto
  from Cons.IH [OF pre, of ?S'] obtain G' S' where
    r: "relax n ms ?G2 ?S' = Inr (G', S')" and d: "dom G' = dom ?G2"
    and o: "g_out G' = (g_out ?G2)(n := g_out ?G2 n - set ms)"
    and i: "g_in G' = (\<lambda>x. if x \<in> set ms then g_in ?G2 x - {n} else g_in ?G2 x)"
    and s: "set S' = set ?S' \<union> {x \<in> set ms. g_in ?G2 x - {n} = {}}"
    by blast
  have mms: "m \<notin> set ms" using Cons.prems by simp
  have A: "g_out G' = (g_out G)(n := g_out G n - set (m # ms))"
    unfolding o o2 using gon by (auto simp: fun_eq_iff)
  have B: "g_in G' = (\<lambda>x. if x \<in> set (m # ms) then g_in G x - {n} else g_in G x)"
    unfolding i i2 using gim mms by (auto simp: fun_eq_iff)
  have C: "set S' = set S \<union> {x \<in> set (m # ms). g_in G x - {n} = {}}"
    unfolding s i2 using gim mms by auto
  have D: "dom G' = dom G" using d d2 by simp
  show ?case unfolding step using r D A B C by blast
qed

subsection \<open>The outer loop\<close>

lemma nth_set_value:
  "set_value n v h ! k = (if k = n \<and> n < length h then (h ! n)\<lparr>val := v\<rparr> else h ! k)"
  by (cases "n < length h") (auto simp: set_value_def list_update_beyond)

lemma length_set_value: "length (set_value n v h) = length h"
  by (simp add: set_value_def)

lemma same_links_set_value:
  "same_links h h0 \<Longrightarrow> same_links (set_value n v h) h0"
  by (auto simp: same_links_def nth_set_value length_set_value)

lemma feed_value_ok:
  assumes sl: "same_links h h0" and n: "n < length h0"
    and fed: "kind (h0 ! n) = Input \<longrightarrow> n \<in> fst ` set feed_dict"
    and fv: "fed_values h0 feed_dict X h"
  shows "\<exists>h1. feed_value feed_dict h n = Inr h1 \<and> same_links h1 h0
            \<and> fed_values h0 feed_dict (insert n X) h1"
proof (cases "kind (h0 ! n) = Input")
  case True
  then have "n \<in> fst ` set feed_dict" using fed by simp
  then obtain v where v: "map_of feed_dict n = Some v"
    by (metis domD dom_map_of_conv_image_fst)
  have k: "kind (h ! n) = Input" using sl n True by (simp add: same_links_def)
  have len: "length h = length h0" using sl by (simp add: same_links_def)
  have "feed_value feed_dict h n = Inr (set_value n v h)"
    using k v by (simp add: feed_value_def)
  moreover have "fed_values h0 feed_dict (insert n X) (set_value n v h)"
    using fv v True len n by (auto simp: fed_values_def nth_set_value)
  ultimately show ?thesis using same_links_set_value [OF sl] by blast
next
  case False
  have k: "kind (h ! n) \<noteq> Input" using sl n False by (simp add: same_links_def)
  have "feed_value feed_dict h n = Inr h" using k by (simp add: feed_value_def)
  moreover have "fed_values h0 feed_dict (insert n X) h"
    using fv False by (auto simp: fed_values_def)
  ultimately show ?thesis using sl by blast
qed

lemma drain_done:
  assumes wfE: "wf {(p, m). p \<in> A \<and> m \<in> A \<and> m \<in> set (outbound_nodes (h0 ! p))}"
    and inv: "drain_inv h0 feed_dict A [] L G h"
  shows "set L = A"
proof (rule ccontr)
  assume "set L \<noteq> A"
  then obtain x where x: "x \<in> A - set L" using inv by (auto simp: drain_inv_def)
  from wfE_min [OF wfE x] obtain z where z: "z \<in> A - set L"
    and min: "\<And>y. (y, z) \<in> {(p, m). p \<in> A \<and> m \<in> A \<and> m \<in> set (outbound_nodes (h0 ! p))} \<Longrightarrow> y \<notin> A - set L"
    by blast
  have "g_in G z = {}" using inv z min by (auto simp: drain_inv_def)
  then have "z \<in> set []" using inv z unfolding drain_inv_def by blast
  then show False by simp
qed

lemma drain_step:
  assumes inA: "\<forall>n\<in>A. n < length h0"
    and closed: "\<forall>n\<in>A. set (outbound_nodes (h0 ! n)) \<subseteq> A"
    and wfE: "wf {(p, m). p \<in> A \<and> m \<in> A \<and> m \<in> set (outbound_nodes (h0 ! p))}"
    and fed: "\<forall>n\<in>A. kind (h0 ! n) = Input \<longrightarrow> n \<in> fst ` set feed_dict"
    and inv: "drain_inv h0 feed_dict A S L G h"
    and nS: "n \<in> set S"
    and dist: "distinct (outbound_nodes (h0 ! n))"
  shows "\<exists>h1 G' S'. feed_value feed_dict h n = Inr h1
           \<and> relax n (outbound_nodes (h1 ! n)) G (removeAll n S) = Inr (G', S')
           \<and> drain_inv h0 feed_dict A S' (L @ [n]) G' h1"
proof -
  let ?ms = "outbound_nodes (h0 ! n)"
  have sl: "same_links h h0" and dL: "distinct L" and LA: "set L \<subseteq> A" and dG: "dom G = A"
    and out: "\<forall>x\<in>A. g_out G x = (if x \<in> set L then {} else set (outbound_nodes (h0 ! x)))"
    and gin: "\<forall>m\<in>A. g_in G m = {p \<in> A. m \<in> set (outbound_nodes (h0 ! p))} - set L"
    and S: "set S = {m \<in> A. m \<notin> set L \<and> g_in G m = {}}"
    and pf: "preds_first h0 A L"
    and dl: "\<forall>x\<in>set L. distinct (outbound_nodes (h0 ! x))"
    and fv: "fed_values h0 feed_dict (set L) h"
    using inv by (auto simp: drain_inv_def)
  have nA: "n \<in> A" and nL: "n \<notin> set L" and n0: "g_in G n = {}" using nS S by auto
  have nlt: "n < length h0" using inA nA by simp
  have msA: "set ?ms \<subseteq> A" using closed nA by simp
  have nms: "n \<notin> set ?ms"
  proof
    assume "n \<in> set ?ms"
    then have "(n, n) \<in> {(p, m). p \<in> A \<and> m \<in> A \<and> m \<in> set (outbound_nodes (h0 ! p))}"
      using nA by simp
    moreover have "(n, n) \<notin> {(p, m). p \<in> A \<and> m \<in> A \<and> m \<in> set (outbound_nodes (h0 ! p))}"
      using wfE by (rule wf_not_refl)
    ultimately show False by blast
  qed
  from feed_value_ok [OF sl nlt _ fv] fed nA obtain h1 where
    h1: "feed_value feed_dict h n = Inr h1" and sl1: "same_links h1 h0"
    and fv1: "fed_values h0 feed_dict (insert n (set L)) h1"
    by blast
  have ms1: "outbound_nodes (h1 ! n) = ?ms" using sl1 nlt by (simp add: same_links_def)
  have msL: "\<forall>m\<in>set ?ms. m \<notin> set L"
  proof
    fix m assume m: "m \<in> set ?ms"
    show "m \<notin> set L"
    proof
      assume "m \<in> set L"
      then obtain i where i: "i < length L" "L ! i = m" by (auto simp: in_set_conv_nth)
      then have "n \<in> set (take i L)" using pf nA m by (auto simp: preds_first_def)
      then show False using nL by (auto dest: in_set_takeD)
    qed
  qed
  have p5: "\<forall>m\<in>set ?ms. m \<in> dom G \<and> n \<in> g_in G m"
  proof
    fix m assume m: "m \<in> set ?ms"
    then have mA: "m \<in> A" using msA by blast
    then have "g_in G m = {p \<in> A. m \<in> set (outbound_nodes (h0 ! p))} - set L"
      using gin by blast
    then have "n \<in> g_in G m" using nA nL m by blast
    then show "m \<in> dom G \<and> n \<in> g_in G m" using mA dG by blast
  qed
  have p4: "set ?ms \<subseteq> g_out G n" using out nA nL by simp
  have p1: "n \<in> dom G" using dG nA by blast
  note pre = p1 dist nms p4 p5
  from relax_ok [OF pre, of "removeAll n S"] obtain G' S' where
    r: "relax n ?ms G (removeAll n S) = Inr (G', S')" and d': "dom G' = dom G"
    and o': "g_out G' = (g_out G)(n := g_out G n - set ?ms)"
    and i': "g_in G' = (\<lambda>x. if x \<in> set ?ms then g_in G x - {n} else g_in G x)"
    and s': "set S' = set (removeAll n S) \<union> {m \<in> set ?ms. g_in G m - {n} = {}}"
    by blast
  have c1: "\<forall>x\<in>A. g_out G' x = (if x \<in> set (L @ [n]) then {} else set (outbound_nodes (h0 ! x)))"
    unfolding o' using out nL nA by auto
  have c2: "\<forall>m\<in>A. g_in G' m = {p \<in> A. m \<in> set (outbound_nodes (h0 ! p))} - set (L @ [n])"
    unfolding i' using gin by auto
  have c3: "set S' = {m \<in> A. m \<notin> set (L @ [n]) \<and> g_in G' m = {}}"
  proof (intro set_eqI iffI)
    fix x assume "x \<in> set S'"
    then consider "x \<in> set S" "x \<noteq> n" | "x \<in> set ?ms" "g_in G x - {n} = {}"
      unfolding s' by auto
    then show "x \<in> {m \<in> A. m \<notin> set (L @ [n]) \<and> g_in G' m = {}}"
    proof cases
      case 1
      then show ?thesis using S unfolding i' by auto
    next
      case 2
      then show ?thesis using msA msL nms unfolding i' by auto
    qed
  next
    fix x assume "x \<in> {m \<in> A. m \<notin> set (L @ [n]) \<and> g_in G' m = {}}"
    then have x: "x \<in> A" "x \<notin> set L" "x \<noteq> n" "g_in G' x = {}" by auto
    show "x \<in> set S'"
    proof (cases "x \<in> set ?ms")
      case True
      then show ?thesis using x unfolding s' i' by simp
    next
      case False
      then have "g_in G x = {}" using x unfolding i' by simp
      then show ?thesis using x S unfolding s' by simp
    qed
  qed
  have c4: "preds_first h0 A (L @ [n])"
    unfolding preds_first_def
  proof (intro allI impI ballI)
    fix i p assume i: "i < length (L @ [n])" and p: "p \<in> A"
      and e: "(L @ [n]) ! i \<in> set (outbound_nodes (h0 ! p))"
    show "p \<in> set (take i (L @ [n]))"
    proof (cases "i < length L")
      case True
      then show ?thesis using pf p e by (auto simp: preds_first_def nth_append)
    next
      case False
      then have il: "i = length L" using i by simp
      then have "n \<in> set (outbound_nodes (h0 ! p))" using e by simp
      then have "p \<in> set L" using gin nA n0 p by auto
      then show ?thesis using il by simp
    qed
  qed
  have "drain_inv h0 feed_dict A S' (L @ [n]) G' h1"
    unfolding drain_inv_def
    using sl1 dL nL LA nA d' dG c1 c2 c3 c4 dl dist fv1 by simp
  then show ?thesis using h1 r ms1 by simp
qed

lemma drain_step_dup:
  assumes inA: "\<forall>n\<in>A. n < length h0"
    and fed: "\<forall>n\<in>A. kind (h0 ! n) = Input \<longrightarrow> n \<in> fst ` set feed_dict"
    and inv: "drain_inv h0 feed_dict A S L G h"
    and nS: "n \<in> set S"
    and dup: "\<not> distinct (outbound_nodes (h0 ! n))"
  shows "\<exists>h1. feed_value feed_dict h n = Inr h1
           \<and> relax n (outbound_nodes (h1 ! n)) G S1 = Inl KeyError
           \<and> same_links h1 h0"
proof -
  have sl: "same_links h h0" and fv: "fed_values h0 feed_dict (set L) h"
    and S: "set S = {m \<in> A. m \<notin> set L \<and> g_in G m = {}}"
    using inv by (auto simp: drain_inv_def)
  have nA: "n \<in> A" using nS S by auto
  have nlt: "n < length h0" using inA nA by simp
  from feed_value_ok [OF sl nlt _ fv] fed nA obtain h1 where
    h1: "feed_value feed_dict h n = Inr h1" and sl1: "same_links h1 h0"
    by blast
  have ms1: "outbound_nodes (h1 ! n) = outbound_nodes (h0 ! n)"
    using sl1 nlt by (simp add: same_links_def)
  have "relax n (outbound_nodes (h1 ! n)) G S1 = Inl KeyError"
  proof (cases "relax n (outbound_nodes (h1 ! n)) G S1")
    case (Inl e)
    then show ?thesis using relax_error [OF Inl] by simp
  next
    case (Inr r)
    then obtain G' S' where "relax n (outbound_nodes (h1 ! n)) G S1 = Inr (G', S')"
      by (cases r) auto
    from relax_Inr_distinct [OF this] dup ms1 show ?thesis by simp
  qed
  then show ?thesis using h1 sl1 by blast
qed

lemma drain_returns:
  assumes fin: "finite A"
    and inA: "\<forall>n\<in>A. n < length h0"
    and closed: "\<forall>n\<in>A. set (outbound_nodes (h0 ! n)) \<subseteq> A"
    and wfE: "wf {(p, m). p \<in> A \<and> m \<in> A \<and> m \<in> set (outbound_nodes (h0 ! p))}"
    and fed: "\<forall>n\<in>A. kind (h0 ! n) = Input \<longrightarrow> n \<in> fst ` set feed_dict"
    and inv: "drain_inv h0 feed_dict A S L G h"
  shows "\<exists>r. drain tie feed_dict S L G h = Some r \<and> drain_post h0 feed_dict A r"
  using inv
proof (induction "card (A - set L)" arbitrary: S L G h rule: less_induct)
  case less
  note inv = less.prems
  show ?case
  proof (cases "S = []")
    case True
    have LA: "set L = A" using drain_done [OF wfE] inv True by blast
    have "drain tie feed_dict S L G h = Some (Inr L, h)"
      using True by (subst drain.simps) simp
    moreover have "drain_post h0 feed_dict A (Inr L, h)"
      using inv LA by (auto simp: drain_post_def drain_inv_def)
    ultimately show ?thesis by blast
  next
    case False
    define n where "n = S ! (tie (length L) mod length S)"
    have nS: "n \<in> set S" using False by (simp add: n_def)
    have nA: "n \<in> A" "n \<notin> set L" using nS inv by (auto simp: drain_inv_def)
    show ?thesis
    proof (cases "distinct (outbound_nodes (h0 ! n))")
      case True
      from drain_step [OF inA closed wfE fed inv nS True] obtain h1 G' S' where
        f: "feed_value feed_dict h n = Inr h1"
        and r: "relax n (outbound_nodes (h1 ! n)) G (removeAll n S) = Inr (G', S')"
        and inv': "drain_inv h0 feed_dict A S' (L @ [n]) G' h1"
        by blast
      have "A - set (L @ [n]) \<subset> A - set L" using nA by auto
      then have "card (A - set (L @ [n])) < card (A - set L)"
        using fin by (intro psubset_card_mono) auto
      from less.hyps [OF this inv'] obtain res where
        res: "drain tie feed_dict S' (L @ [n]) G' h1 = Some res" "drain_post h0 feed_dict A res"
        by blast
      have "drain tie feed_dict S L G h = Some res"
        using False f r res(1) n_def
        by (subst drain.simps) (simp add: Let_def)
      then show ?thesis using res(2) by blast
    next
      case dup: False
      from drain_step_dup [OF inA fed inv nS dup, of "removeAll n S"] obtain h1 where
        f: "feed_value feed_dict h n = Inr h1"
        and r: "relax n (outbound_nodes (h1 ! n)) G (removeAll n S) = Inl KeyError"
        and sl: "same_links h1 h0"
        by blast
      have "drain tie feed_dict S L G h = Some (Inl KeyError, h1)"
        using False f r n_def
        by (subst drain.simps) (simp add: Let_def)
      moreover have "drain_post h0 feed_dict A (Inl KeyError, h1)"
        using sl nA dup by (auto simp: drain_post_def)
      ultimately show ?thesis by blast
    qed
  qed
qed

section \<open>\<^verbatim>\<open>topological_sort\<close> on an acyclic graph\<close>

lemma edges_range: "wf_heap h \<Longrightarrow> (p, m) \<in> edges h \<Longrightarrow> p < length h \<and> m < length h"
  unfolding wf_heap_def edges_def by blast

lemma reachable_range:
  assumes "wf_heap h" "\<forall>k\<in>set ks. k < length h" "n \<in> reachable h ks"
  shows "n < length h"
proof -
  from assms(3) obtain k where k: "k \<in> set ks" "(k, n) \<in> (edges h)\<^sup>*"
    by (auto simp: reachable_def)
  from k(2) show ?thesis
  proof (induction rule: rtrancl_induct)
    case base
    then show ?case using k(1) assms(2) by blast
  next
    case (step y z)
    then show ?case using edges_range [OF assms(1)] by blast
  qed
qed

lemma reachable_closed:
  "p \<in> reachable h ks \<Longrightarrow> (p, m) \<in> edges h \<Longrightarrow> m \<in> reachable h ks"
  by (auto simp: reachable_def intro: rtrancl_into_rtrancl)

lemma reachable_roots: "set ks \<subseteq> reachable h ks"
  by (auto simp: reachable_def)

lemma reachable_cases:
  assumes "n \<in> reachable h ks"
  shows "n \<in> set ks \<or> (\<exists>p\<in>reachable h ks. (p, n) \<in> edges h)"
proof -
  from assms obtain k where k: "k \<in> set ks" "(k, n) \<in> (edges h)\<^sup>*"
    by (auto simp: reachable_def)
  from k(2) show ?thesis
  proof (cases rule: rtranclE)
    case base
    then show ?thesis using k(1) by simp
  next
    case (step p)
    then have "p \<in> reachable h ks" using k(1) by (auto simp: reachable_def)
    then show ?thesis using step by blast
  qed
qed

lemma wf_heap_count:
  "wf_heap h \<Longrightarrow> p < length h \<Longrightarrow> m < length h \<Longrightarrow>
   count_list (outbound_nodes (h ! p)) m = count_list (inbound_nodes (h ! m)) p"
  unfolding wf_heap_def by blast

lemma wf_heap_input:
  "wf_heap h \<Longrightarrow> n < length h \<Longrightarrow> kind (h ! n) = Input \<Longrightarrow> inbound_nodes (h ! n) = []"
  unfolding wf_heap_def by blast

lemma input_no_pred:
  assumes "wf_heap h" "n < length h" "kind (h ! n) = Input"
  shows "(p, n) \<notin> edges h"
proof
  assume e: "(p, n) \<in> edges h"
  then have p: "p < length h" "n \<in> set (outbound_nodes (h ! p))" by (auto simp: edges_def)
  then have "count_list (outbound_nodes (h ! p)) n \<noteq> 0"
    using count_list_0_iff [of "outbound_nodes (h ! p)" n] by simp
  then have "count_list (inbound_nodes (h ! n)) p \<noteq> 0"
    using wf_heap_count [OF assms(1) p(1) assms(2)] by simp
  then show False using wf_heap_input [OF assms] by simp
qed

lemma finite_edges:
  assumes "wf_heap h"
  shows "finite (edges h)"
proof -
  have "edges h \<subseteq> {..<length h} \<times> {..<length h}"
  proof
    fix e assume "e \<in> edges h"
    then obtain p m where "e = (p, m)" "(p, m) \<in> edges h" by (cases e) auto
    then show "e \<in> {..<length h} \<times> {..<length h}"
      using edges_range [OF assms, of p m] by simp
  qed
  then show ?thesis by (rule finite_subset) simp
qed

lemma topological_sort_returns:
  assumes wfh: "wf_heap h" and fi: "feed_inputs h feed_dict"
    and ac: "acyclic (graph_edges h feed_dict)"
  shows "\<exists>r. topological_sort tie h feed_dict = Some r
           \<and> drain_post h feed_dict (reachable h (map fst feed_dict)) r"
proof -
  let ?ks = "map fst feed_dict"
  let ?A = "reachable h ?ks"
  let ?E = "graph_edges h feed_dict"
  have ks: "\<forall>k\<in>set ?ks. k < length h \<and> kind (h ! k) = Input"
    using fi by (simp add: feed_inputs_def)
  have inA: "\<forall>n\<in>?A. n < length h" using reachable_range [OF wfh] ks by blast
  have finA: "finite ?A" by (rule finite_subset [of _ "{..<length h}"]) (use inA in auto)
  have finE: "finite ?E"
    by (rule finite_subset [OF _ finite_edges [OF wfh]]) (auto simp: graph_edges_def)
  have ed: "\<And>p m. p \<in> ?A \<Longrightarrow> (p, m) \<in> edges h \<longleftrightarrow> m \<in> set (outbound_nodes (h ! p))"
    using inA by (auto simp: edges_def)
  have closed: "\<forall>n\<in>?A. set (outbound_nodes (h ! n)) \<subseteq> ?A"
    using reachable_closed ed by blast
  have wf1: "wf (?E\<inverse>)" using finE ac by (rule finite_acyclic_wf_converse)
  have wf2: "wf {(p, m). p \<in> ?A \<and> m \<in> ?A \<and> m \<in> set (outbound_nodes (h ! p))}"
    by (rule wf_subset [OF finite_acyclic_wf [OF finE ac]]) (use ed in \<open>auto simp: graph_edges_def\<close>)
  have c1: "\<forall>n\<in>?A. n < length h \<and> (\<forall>m\<in>set (outbound_nodes (h ! n)). m \<in> ?A \<and> (m, n) \<in> ?E\<inverse>)"
    using inA closed ed by (auto simp: graph_edges_def)
  have e0: "dom (Map.empty :: graph) = {}" "\<And>x. g_out Map.empty x = {}" "\<And>x. g_in Map.empty x = {}"
    by (simp_all add: g_in_def g_out_def)
  note dr = discover_returns [OF wf1 c1 reachable_roots, of Map.empty, unfolded e0, simplified]
  from dr obtain G where
    G: "discover h ?ks Map.empty = Some G"
    and dG: "dom G = ?A"
    and oG: "\<forall>x. g_out G x = (if x \<in> ?A then set (outbound_nodes (h ! x)) else {})"
    and iG: "\<forall>x. g_in G x = {p \<in> ?A. (p, x) \<in> edges h}"
    by blast
  have fed: "\<forall>n\<in>?A. kind (h ! n) = Input \<longrightarrow> n \<in> fst ` set feed_dict"
  proof (intro ballI impI)
    fix n assume n: "n \<in> ?A" "kind (h ! n) = Input"
    then have "\<And>p. (p, n) \<notin> edges h" using input_no_pred [OF wfh] inA by blast
    then show "n \<in> fst ` set feed_dict" using reachable_cases [OF n(1)] by auto
  qed
  have S: "set (remdups ?ks) = {m \<in> ?A. m \<notin> set [] \<and> g_in G m = {}}"
  proof (intro set_eqI iffI)
    fix k assume "k \<in> set (remdups ?ks)"
    then have k: "k \<in> set ?ks" by simp
    then have "\<And>p. (p, k) \<notin> edges h" using input_no_pred [OF wfh] ks by blast
    then show "k \<in> {m \<in> ?A. m \<notin> set [] \<and> g_in G m = {}}"
      using k reachable_roots [of ?ks h] iG by auto
  next
    fix m assume "m \<in> {m \<in> ?A. m \<notin> set [] \<and> g_in G m = {}}"
    then have m: "m \<in> ?A" "g_in G m = {}" by auto
    then have "\<not> (\<exists>p\<in>?A. (p, m) \<in> edges h)" using iG by auto
    then show "m \<in> set (remdups ?ks)" using reachable_cases [OF m(1)] by auto
  qed
  have i1: "same_links h h" by (simp add: same_links_def)
  have i2: "\<forall>n\<in>?A. g_out G n = (if n \<in> set [] then {} else set (outbound_nodes (h ! n)))"
    using oG by simp
  have i3: "\<forall>m\<in>?A. g_in G m = {p \<in> ?A. m \<in> set (outbound_nodes (h ! p))} - set []"
    using iG ed by auto
  have i4: "preds_first h ?A []" by (simp add: preds_first_def)
  have i5: "fed_values h feed_dict (set []) h" by (simp add: fed_values_def)
  have inv: "drain_inv h feed_dict ?A (remdups ?ks) [] G h"
    unfolding drain_inv_def
    using i1 dG i2 i3 S i4 i5 by simp
  from drain_returns [OF finA inA closed wf2 fed inv, of tie] obtain r where
    "drain tie feed_dict (remdups ?ks) [] G h = Some r" "drain_post h feed_dict ?A r"
    by blast
  then show ?thesis using G by (simp add: topological_sort_def)
qed

lemma all_less_3: "(\<forall>n<length [a, b, c]. P n) \<longleftrightarrow> P 0 \<and> P 1 \<and> P 2"
  by (auto simp: less_Suc_eq numeral_2_eq_2)

lemma wf_add_graph: "wf_heap add_graph"
  unfolding wf_heap_def add_graph_def all_less_3 by simp

lemma feed_add_graph: "feed_inputs add_graph add_feed"
  by (simp add: feed_inputs_def add_graph_def add_feed_def)

lemma acyclic_increasing:
  assumes "\<forall>n<length h. \<forall>m\<in>set (outbound_nodes (h ! n)). n < m"
  shows "acyclic (graph_edges h feed_dict)"
proof -
  have "graph_edges h feed_dict \<subseteq> less_than"
    using assms by (auto simp: graph_edges_def edges_def)
  then show ?thesis using wf_less_than by (meson acyclic_subset wf_acyclic)
qed


section \<open>\<^verbatim>\<open>topological_sort\<close> on a graph with a cycle\<close>

lemma reaches_cycle_step:
  assumes "reaches_cycle h n"
  shows "\<exists>m\<in>set (outbound_nodes (h ! n)). reaches_cycle h m"
proof -
  from assms obtain c where c: "(n, c) \<in> (edges h)\<^sup>*" "(c, c) \<in> (edges h)\<^sup>+"
    by (auto simp: reaches_cycle_def)
  then have "(n, c) \<in> (edges h)\<^sup>+" by (rule rtrancl_trancl_trancl)
  then obtain m where m: "(n, m) \<in> edges h" "(m, c) \<in> (edges h)\<^sup>*"
    by (blast dest: tranclD)
  then have "reaches_cycle h m" using c(2) by (auto simp: reaches_cycle_def)
  moreover have "m \<in> set (outbound_nodes (h ! n))" using m(1) by (simp add: edges_def)
  ultimately show ?thesis by blast
qed

lemma discover_Some_no_cycle:
  assumes "discover h q G = Some G'"
  shows "\<forall>n\<in>set q. \<not> reaches_cycle h n"
proof (rule discover.raw_induct [where P = "\<lambda>h q G G'. \<forall>n\<in>set q. \<not> reaches_cycle h n", OF _ assms])
  fix f and h :: "'a heap" and nodes G G'
  assume ih: "\<And>a b c y. f a b c = Some y \<Longrightarrow> \<forall>n\<in>set b. \<not> reaches_cycle a n"
    and eq: "(case nodes of [] \<Rightarrow> Some G
              | n # rest \<Rightarrow> f h (rest @ outbound_nodes (h ! n))
                  (fold (link n) (outbound_nodes (h ! n)) (ensure n G))) = Some G'"
  show "\<forall>n\<in>set nodes. \<not> reaches_cycle h n"
  proof (cases nodes)
    case Nil
    then show ?thesis by simp
  next
    case (Cons n rest)
    with eq have "f h (rest @ outbound_nodes (h ! n))
       (fold (link n) (outbound_nodes (h ! n)) (ensure n G)) = Some G'" by simp
    from ih [OF this] have r: "\<forall>x\<in>set (rest @ outbound_nodes (h ! n)). \<not> reaches_cycle h x" .
    then have "\<not> reaches_cycle h n" using reaches_cycle_step [of h n] by auto
    then show ?thesis using r Cons by auto
  qed
qed

lemma discover_diverges:
  assumes "n \<in> set q" "reaches_cycle h n"
  shows "discover h q G = None"
proof (cases "discover h q G")
  case None
  then show ?thesis .
next
  case (Some G')
  from discover_Some_no_cycle [OF Some] assms show ?thesis by blast
qed

lemma topological_sort_diverges:
  assumes "c \<in> reachable h (map fst feed_dict)" "(c, c) \<in> (edges h)\<^sup>+"
  shows "topological_sort tie h feed_dict = None"
proof -
  from assms(1) obtain k where k: "k \<in> set (map fst feed_dict)" "(k, c) \<in> (edges h)\<^sup>*"
    by (auto simp: reachable_def)
  then have "reaches_cycle h k" using assms(2) by (auto simp: reaches_cycle_def)
  from discover_diverges [OF k(1) this] show ?thesis
    by (simp add: topological_sort_def)
qed

lemma returns_acyclic:
  assumes "topological_sort tie h feed_dict = Some r"
  shows "acyclic (graph_edges h feed_dict)"
  unfolding acyclic_def
proof (intro allI notI)
  fix x assume x: "(x, x) \<in> (graph_edges h feed_dict)\<^sup>+"
  have sub: "graph_edges h feed_dict \<subseteq> edges h" by (auto simp: graph_edges_def)
  then have 1: "(x, x) \<in> (edges h)\<^sup>+" using x trancl_mono by blast
  from x obtain y where "(x, y) \<in> graph_edges h feed_dict" by (blast dest: tranclD)
  then have 2: "x \<in> reachable h (map fst feed_dict)" by (simp add: graph_edges_def)
  from topological_sort_diverges [OF 2 1] assms show False by simp
qed

lemma loop_graph_cycle:
  "1 \<in> reachable loop_graph (map fst loop_feed) \<and> (1, 1) \<in> (edges loop_graph)\<^sup>+"
proof -
  have e: "(0, 1) \<in> edges loop_graph" "(1, 2) \<in> edges loop_graph" "(2, 1) \<in> edges loop_graph"
    by (simp_all add: edges_def loop_graph_def)
  have "(1, 1) \<in> (edges loop_graph)\<^sup>+" using e(2,3) by (rule trancl_into_trancl2 [OF _ r_into_trancl])
  moreover have "1 \<in> reachable loop_graph (map fst loop_feed)"
    using e(1) by (auto simp: reachable_def loop_feed_def)
  ultimately show ?thesis by blast
qed

section \<open>What \<^verbatim>\<open>topological_sort\<close> writes\<close>

lemma only_feeds_written_refl: "only_feeds_written h feed_dict h"
  by (simp add: only_feeds_written_def same_links_def)

lemma only_feeds_written_trans:
  assumes "only_feeds_written h feed_dict h1" "only_feeds_written h1 feed_dict h2"
  shows "only_feeds_written h feed_dict h2"
proof -
  have l: "length h1 = length h" "length h2 = length h"
    using assms by (auto simp: only_feeds_written_def same_links_def)
  have "same_links h2 h"
    using assms l by (auto simp: only_feeds_written_def same_links_def)
  moreover have "val (h2 ! n) = val (h ! n)
      \<or> (kind (h ! n) = Input \<and> map_of feed_dict n = Some (val (h2 ! n)))" if "n < length h" for n
  proof -
    have a: "val (h1 ! n) = val (h ! n) \<or> (kind (h ! n) = Input \<and> map_of feed_dict n = Some (val (h1 ! n)))"
      and b: "val (h2 ! n) = val (h1 ! n) \<or> (kind (h1 ! n) = Input \<and> map_of feed_dict n = Some (val (h2 ! n)))"
      and k: "kind (h1 ! n) = kind (h ! n)"
      using assms that l by (auto simp: only_feeds_written_def same_links_def)
    show ?thesis using a b k by metis
  qed
  ultimately show ?thesis by (simp add: only_feeds_written_def)
qed

lemma feed_value_frame:
  assumes "feed_value feed_dict h n = Inr h1"
  shows "only_feeds_written h feed_dict h1"
proof (cases "kind (h ! n) = Input")
  case True
  with assms obtain v where v: "map_of feed_dict n = Some v" "h1 = set_value n v h"
    by (auto simp: feed_value_def split: option.splits)
  show ?thesis
    unfolding only_feeds_written_def v(2)
    using True v(1) same_links_set_value [of h h n v]
    by (auto simp: nth_set_value same_links_def)
next
  case False
  with assms have "h1 = h" by (simp add: feed_value_def)
  then show ?thesis by (simp add: only_feeds_written_refl)
qed

lemma drain_frame:
  assumes "drain tie feed_dict S L G h = Some r"
  shows "only_feeds_written h feed_dict (snd r)"
proof (rule drain.raw_induct [where P = "\<lambda>tie feed_dict S L G h r. only_feeds_written h feed_dict (snd r)", OF _ assms])
  fix f :: "(nat \<Rightarrow> nat) \<Rightarrow> 'a feed \<Rightarrow> nat list \<Rightarrow> nat list \<Rightarrow> graph \<Rightarrow> 'a heap \<Rightarrow> (nat list, 'a) res option"
    and tie feed_dict S L G h r
  assume ih: "\<And>a b c d e g y. f a b c d e g = Some y \<Longrightarrow> only_feeds_written g b (snd y)"
    and eq: "(if S = [] then Some (Inr L, h)
        else let n = S ! (tie (length L) mod length S)
             in case feed_value feed_dict h n of Inl e \<Rightarrow> Some (Inl e, h)
                | Inr h1 \<Rightarrow>
                    (case relax n (outbound_nodes (h1 ! n)) G (removeAll n S) of
                       Inl e \<Rightarrow> Some (Inl e, h1)
                     | Inr (G', S') \<Rightarrow> f tie feed_dict S' (L @ [n]) G' h1)) = Some r"
  show "only_feeds_written h feed_dict (snd r)"
  proof (cases "S = []")
    case True
    with eq show ?thesis by (auto simp: only_feeds_written_refl)
  next
    case False
    define n where "n = S ! (tie (length L) mod length S)"
    show ?thesis
    proof (cases "feed_value feed_dict h n")
      case (Inl e)
      with eq False show ?thesis by (auto simp: n_def Let_def only_feeds_written_refl)
    next
      case (Inr h1)
      note fr = feed_value_frame [OF Inr]
      show ?thesis
      proof (cases "relax n (outbound_nodes (h1 ! n)) G (removeAll n S)")
        case (Inl e)
        with eq False Inr have "r = (Inl e, h1)" by (auto simp: n_def Let_def)
        then show ?thesis using fr by simp
      next
        case (Inr p)
        obtain G' S' where p: "p = (G', S')" by (cases p)
        with eq False Inr \<open>feed_value feed_dict h n = Inr h1\<close>
        have "f tie feed_dict S' (L @ [n]) G' h1 = Some r" by (auto simp: n_def Let_def)
        from ih [OF this] fr show ?thesis by (rule only_feeds_written_trans [rotated])
      qed
    qed
  qed
qed

lemma topological_sort_frame:
  assumes "topological_sort tie h feed_dict = Some r"
  shows "only_feeds_written h feed_dict (snd r)"
proof -
  from assms obtain G where "drain tie feed_dict (remdups (map fst feed_dict)) [] G h = Some r"
    by (auto simp: topological_sort_def Let_def split: option.splits)
  then show ?thesis by (rule drain_frame)
qed

section \<open>The order returned by \<^verbatim>\<open>topological_sort\<close>\<close>

lemma count_list_distinct:
  "distinct xs \<Longrightarrow> count_list xs x = (if x \<in> set xs then 1 else 0)"
  by (induction xs) auto

lemma not_distinct_count:
  "\<not> distinct xs \<Longrightarrow> \<exists>x\<in>set xs. 2 \<le> count_list xs x"
proof (induction xs)
  case Nil
  then show ?case by simp
next
  case (Cons a xs)
  show ?case
  proof (cases "a \<in> set xs")
    case True
    then have "count_list xs a \<noteq> 0" using count_list_0_iff [of xs a] by simp
    then have "2 \<le> count_list (a # xs) a" by simp
    then show ?thesis by (intro bexI [of _ a]) simp_all
  next
    case False
    with Cons obtain x where x: "x \<in> set xs" "2 \<le> count_list xs x" by auto
    then have "2 \<le> count_list (a # xs) x" by simp
    then show ?thesis using x(1) by (intro bexI [of _ x]) simp_all
  qed
qed

lemma preds_first_index:
  assumes "preds_first h A L" "j < length L" "p \<in> A" "L ! j \<in> set (outbound_nodes (h ! p))"
  shows "\<exists>i<j. L ! i = p"
proof -
  from assms have "p \<in> set (take j L)" by (simp add: preds_first_def)
  then obtain i where i: "i < length (take j L)" "take j L ! i = p"
    unfolding in_set_conv_nth by blast
  then have "i < j" "L ! i = p" by simp_all
  then show ?thesis by blast
qed

lemma distinct_count_le_1: "distinct xs \<Longrightarrow> count_list xs x \<le> 1"
  by (induction xs) auto

lemma sorted_cases:
  assumes "drain_post h feed_dict A r"
  shows "(\<exists>L h'. r = (Inr L, h') \<and> distinct L \<and> set L = A \<and> preds_first h A L
            \<and> same_links h' h \<and> fed_values h feed_dict A h'
            \<and> (\<forall>n\<in>A. distinct (outbound_nodes (h ! n))))
       \<or> (\<exists>h'. r = (Inl KeyError, h') \<and> same_links h' h
            \<and> (\<exists>n\<in>A. \<not> distinct (outbound_nodes (h ! n))))"
proof (cases r)
  case (Pair x h')
  show ?thesis
  proof (cases x)
    case (Inl e)
    with assms Pair show ?thesis by (simp add: drain_post_def)
  next
    case (Inr L)
    with assms Pair show ?thesis by (simp add: drain_post_def)
  qed
qed

text \<open>
  The result on an acyclic graph in which no reachable node has the same successor twice:
  \<^verbatim>\<open>topological_sort\<close> returns a list that holds every reachable node once and nothing else,
  and every edge of the reachable graph leads from a position of the list to a later one.
\<close>

lemma topological_sort_sorted:
  assumes "wf_heap h" "feed_inputs h feed_dict" "acyclic (graph_edges h feed_dict)"
    and dist: "\<forall>n\<in>reachable h (map fst feed_dict). distinct (outbound_nodes (h ! n))"
  shows "\<exists>L h'. topological_sort tie h feed_dict = Some (Inr L, h')
       \<and> distinct L \<and> set L = reachable h (map fst feed_dict)
       \<and> (\<forall>n. count_list L n = (if n \<in> reachable h (map fst feed_dict) then 1 else 0))
       \<and> (\<forall>p m. (p, m) \<in> graph_edges h feed_dict
            \<longrightarrow> (\<exists>i j. i < j \<and> j < length L \<and> L ! i = p \<and> L ! j = m))"
proof -
  let ?A = "reachable h (map fst feed_dict)"
  from topological_sort_returns [OF assms(1-3), of tie] obtain r where
    r: "topological_sort tie h feed_dict = Some r" and post: "drain_post h feed_dict ?A r"
    by blast
  from sorted_cases [OF post] dist obtain L h' where
    rl: "r = (Inr L, h')" and d: "distinct L" and s: "set L = ?A" and pf: "preds_first h ?A L"
    by blast
  have c: "count_list L n = (if n \<in> ?A then 1 else 0)" for n
    using count_list_distinct [OF d, of n] unfolding s .
  have e: "\<exists>i j. i < j \<and> j < length L \<and> L ! i = p \<and> L ! j = m"
    if pm: "(p, m) \<in> graph_edges h feed_dict" for p m
  proof -
    from pm have p: "p \<in> ?A" and ed: "(p, m) \<in> edges h"
      unfolding graph_edges_def by simp_all
    from ed have out: "m \<in> set (outbound_nodes (h ! p))" unfolding edges_def by simp
    from p ed have "m \<in> ?A" by (rule reachable_closed)
    then have "m \<in> set L" unfolding s .
    then obtain j where j: "j < length L" "L ! j = m" unfolding in_set_conv_nth by blast
    from out have "L ! j \<in> set (outbound_nodes (h ! p))" unfolding j(2) .
    from preds_first_index [OF pf j(1) p this] obtain i where "i < j" "L ! i = p" by blast
    with j show ?thesis by blast
  qed
  have t: "topological_sort tie h feed_dict = Some (Inr L, h')" unfolding r rl ..
  have "topological_sort tie h feed_dict = Some (Inr L, h')
       \<and> distinct L \<and> set L = ?A
       \<and> (\<forall>n. count_list L n = (if n \<in> ?A then 1 else 0))
       \<and> (\<forall>p m. (p, m) \<in> graph_edges h feed_dict
            \<longrightarrow> (\<exists>i j. i < j \<and> j < length L \<and> L ! i = p \<and> L ! j = m))"
    using t d s c e by (intro conjI allI impI)
  then show ?thesis by (intro exI)
qed

lemma all_less_2: "(\<forall>n<length [a, b]. P n) \<longleftrightarrow> P 0 \<and> P 1"
  by (auto simp: less_Suc_eq)

lemma wf_twice_graph: "wf_heap twice_graph"
  unfolding wf_heap_def twice_graph_def all_less_2 by simp

lemma feed_twice_graph: "feed_inputs twice_graph twice_feed"
  by (simp add: feed_inputs_def twice_graph_def twice_feed_def)

lemma acyclic_twice_graph: "acyclic (graph_edges twice_graph twice_feed)"
  by (rule acyclic_increasing) (auto simp: twice_graph_def less_Suc_eq)

lemma twice_graph_constructed:
  "fst (new_add 0 0 (fst (new_input []))) = twice_graph"
  by (simp add: new_add_def new_input_def Node_init_def add_outbound_def twice_graph_def)

lemma reachable_twice_graph: "reachable twice_graph (map fst twice_feed) = {0, 1}"
proof -
  have k: "map fst twice_feed = [0]" by (simp add: twice_feed_def)
  have 0: "0 \<in> reachable twice_graph [0]" using reachable_roots [of "[0]" twice_graph] by simp
  have "(0, 1) \<in> edges twice_graph" by (simp add: edges_def twice_graph_def)
  with 0 have 1: "1 \<in> reachable twice_graph [0]" by (rule reachable_closed)
  have "n \<in> {0, 1}" if "n \<in> reachable twice_graph [0]" for n
  proof -
    have "\<forall>k\<in>set [0]. k < length twice_graph" by (simp add: twice_graph_def)
    from reachable_range [OF wf_twice_graph this that] have "n < 2" by (simp add: twice_graph_def)
    then show ?thesis by (simp add: less_Suc_eq numeral_2_eq_2)
  qed
  with 0 1 show ?thesis unfolding k by blast
qed

text \<open>
  \<^verbatim>\<open>a = Input(); f = Add(a, a); topological_sort({a: 5})\<close>, step by step. The first loop
  enters the edge from \<open>a\<close> to \<open>f\<close> twice into sets, so once. The second loop takes \<open>a\<close>, sets
  its value, and runs through \<^verbatim>\<open>a.outbound_nodes\<close>, the list \<open>[f, f]\<close>: the first round removes
  the edge, the second \<^verbatim>\<open>G[n]['out'].remove(m)\<close> raises KeyError. Only one node is ever in \<open>S\<close>,
  so \<^verbatim>\<open>S.pop()\<close> has no choice.
\<close>

lemma twice_graph_discovered:
  "discover twice_graph [0] Map.empty = Some [0 \<mapsto> ({}, {1}), 1 \<mapsto> ({0}, {})]"
  by (simp add: twice_graph_def discover.simps ensure_def link_def Let_def)

lemma twice_graph_drained:
  "drain tie twice_feed [0] [] [0 \<mapsto> ({}, {1}), 1 \<mapsto> ({0}, {})] twice_graph =
     Some (Inl KeyError, set_value 0 (Some 5) twice_graph)"
  by (simp add: twice_graph_def twice_feed_def drain.simps feed_value_def set_value_def Let_def)

lemma twice_graph_sorted:
  "topological_sort tie twice_graph twice_feed =
     Some (Inl KeyError, set_value 0 (Some 5) twice_graph)"
proof -
  have k: "map fst twice_feed = [0]" by (simp add: twice_feed_def)
  have r: "remdups [0 :: nat] = [0]" by simp
  show ?thesis
    unfolding topological_sort_def Let_def k r twice_graph_discovered option.case
    by (rule twice_graph_drained)
qed

text \<open>
  C1. The graph of \<^verbatim>\<open>a = Input(); f = Add(a, a)\<close> is acyclic, with the one edge from \<open>a\<close> to
  \<open>f\<close>. Fed at \<open>a\<close>, \<^verbatim>\<open>topological_sort\<close> returns no order of it: whatever \<^verbatim>\<open>S.pop()\<close> takes, the
  call ends with KeyError, after the value of \<open>a\<close> was set. (On an acyclic graph where no node
  is twice among the successors of a node, the list returned is a topological order of the
  whole reachable graph: \<open>topological_sort_sorted\<close>.)
\<close>

theorem duplicate_edge_no_order:
  "fst (new_add 0 0 (fst (new_input []))) = twice_graph
   \<and> graph_edges twice_graph twice_feed = {(0, 1)}
   \<and> acyclic (graph_edges twice_graph twice_feed)
   \<and> topological_sort tie twice_graph twice_feed =
       Some (Inl KeyError, set_value 0 (Some 5) twice_graph)"
proof (intro conjI)
  show "fst (new_add 0 0 (fst (new_input []))) = twice_graph" by (rule twice_graph_constructed)
  show "acyclic (graph_edges twice_graph twice_feed)" by (rule acyclic_twice_graph)
  show "topological_sort tie twice_graph twice_feed =
       Some (Inl KeyError, set_value 0 (Some 5) twice_graph)" by (rule twice_graph_sorted)
  have "edges twice_graph = {(0, 1)}"
    by (auto simp: edges_def twice_graph_def less_Suc_eq)
  then show "graph_edges twice_graph twice_feed = {(0, 1)}"
    unfolding graph_edges_def reachable_twice_graph by auto
qed

text \<open>
  C2. In the graph of \<^verbatim>\<open>a = Input(); f = Add(a, a)\<close>, which is acyclic, the nodes reachable from
  \<open>a\<close> are \<open>a\<close> and \<open>f\<close>. Fed at \<open>a\<close>, \<^verbatim>\<open>topological_sort\<close> terminates for every choice of
  \<^verbatim>\<open>S.pop()\<close>, and returns no list: the call ends with KeyError. (On an acyclic graph where no
  node is twice among the successors of a node, the list returned holds the reachable nodes,
  each once: \<open>topological_sort_sorted\<close>.)
\<close>

theorem duplicate_edge_no_list:
  "reachable twice_graph (map fst twice_feed) = {0, 1}
   \<and> acyclic (graph_edges twice_graph twice_feed)
   \<and> (\<exists>r. topological_sort tie twice_graph twice_feed = Some r \<and> fst r = Inl KeyError)
   \<and> (\<nexists>L h'. topological_sort tie twice_graph twice_feed = Some (Inr L, h'))"
proof (intro conjI)
  show "reachable twice_graph (map fst twice_feed) = {0, 1}" by (rule reachable_twice_graph)
  show "acyclic (graph_edges twice_graph twice_feed)" by (rule acyclic_twice_graph)
  show "\<exists>r. topological_sort tie twice_graph twice_feed = Some r \<and> fst r = Inl KeyError"
    unfolding twice_graph_sorted by simp
  show "\<nexists>L h'. topological_sort tie twice_graph twice_feed = Some (Inr L, h')"
    unfolding twice_graph_sorted by simp
qed

text \<open>
  C10. Let the store be well linked, the keys of the feed dictionary Input nodes, and the graph
  reachable from them acyclic. When the \<^verbatim>\<open>inbound_nodes\<close> list of every reachable node has no
  duplicates, no \<^verbatim>\<open>remove\<close> of the second loop fails and \<^verbatim>\<open>topological_sort\<close> returns a list; when
  a reachable node \<open>p\<close> is listed twice or more in the \<^verbatim>\<open>inbound_nodes\<close> of some node, so that
  this node is twice in \<^verbatim>\<open>p.outbound_nodes\<close>, \<^verbatim>\<open>topological_sort\<close> raises KeyError.
\<close>

theorem duplicate_edge_KeyError:
  assumes "wf_heap h" "feed_inputs h feed_dict" "acyclic (graph_edges h feed_dict)"
  shows "((\<forall>m\<in>reachable h (map fst feed_dict). distinct (inbound_nodes (h ! m)))
            \<longrightarrow> (\<exists>L h'. topological_sort tie h feed_dict = Some (Inr L, h')))
       \<and> (\<forall>p\<in>reachable h (map fst feed_dict). \<forall>m<length h.
            2 \<le> count_list (inbound_nodes (h ! m)) p
            \<longrightarrow> (\<exists>h'. topological_sort tie h feed_dict = Some (Inl KeyError, h')))"
proof -
  let ?A = "reachable h (map fst feed_dict)"
  have inA: "n < length h" if "n \<in> ?A" for n
    using reachable_range [OF assms(1) _ that] assms(2) by (simp add: feed_inputs_def)
  from topological_sort_returns [OF assms, of tie] obtain r where
    r: "topological_sort tie h feed_dict = Some r" and post: "drain_post h feed_dict ?A r"
    by blast
  note cases = sorted_cases [OF post]
  have a: "\<exists>L h'. topological_sort tie h feed_dict = Some (Inr L, h')"
    if din: "\<forall>m\<in>?A. distinct (inbound_nodes (h ! m))"
  proof -
    have "distinct (outbound_nodes (h ! p))" if p: "p \<in> ?A" for p
    proof (rule ccontr)
      assume "\<not> distinct (outbound_nodes (h ! p))"
      from not_distinct_count [OF this] obtain m where
        m: "m \<in> set (outbound_nodes (h ! p))" "2 \<le> count_list (outbound_nodes (h ! p)) m"
        by blast
      have "(p, m) \<in> edges h" using m(1) inA [OF p] by (simp add: edges_def)
      then have mA: "m \<in> ?A" using p by (rule reachable_closed [rotated])
      have "count_list (inbound_nodes (h ! m)) p = count_list (outbound_nodes (h ! p)) m"
        using wf_heap_count [OF assms(1) inA [OF p] inA [OF mA]] by simp
      then have "2 \<le> count_list (inbound_nodes (h ! m)) p" using m(2) by simp
      moreover have "count_list (inbound_nodes (h ! m)) p \<le> 1"
        using din mA by (intro distinct_count_le_1) blast
      ultimately show False by simp
    qed
    with cases r show ?thesis by blast
  qed
  have b: "\<exists>h'. topological_sort tie h feed_dict = Some (Inl KeyError, h')"
    if p: "p \<in> ?A" and m: "m < length h" and c: "2 \<le> count_list (inbound_nodes (h ! m)) p" for p m
  proof -
    have "count_list (outbound_nodes (h ! p)) m = count_list (inbound_nodes (h ! m)) p"
      using wf_heap_count [OF assms(1) inA [OF p] m] .
    then have "2 \<le> count_list (outbound_nodes (h ! p)) m" using c by simp
    then have "\<not> distinct (outbound_nodes (h ! p))"
      using distinct_count_le_1 [of "outbound_nodes (h ! p)" m] by auto
    with cases r p show ?thesis by blast
  qed
  show ?thesis
  proof (intro conjI ballI allI impI)
    assume "\<forall>m\<in>?A. distinct (inbound_nodes (h ! m))"
    then show "\<exists>L h'. topological_sort tie h feed_dict = Some (Inr L, h')" by (rule a)
  next
    fix p m assume "p \<in> ?A" "m < length h" "2 \<le> count_list (inbound_nodes (h ! m)) p"
    then show "\<exists>h'. topological_sort tie h feed_dict = Some (Inl KeyError, h')" by (rule b)
  qed
qed

lemma reachable_twice_0: "0 \<in> reachable twice_graph (map fst twice_feed)"
  by (simp add: reachable_def twice_feed_def)

theorem duplicate_edge_KeyError_witness:
  "wf_heap twice_graph \<and> feed_inputs twice_graph twice_feed
   \<and> acyclic (graph_edges twice_graph twice_feed)
   \<and> 0 \<in> reachable twice_graph (map fst twice_feed) \<and> 1 < length twice_graph
   \<and> 2 \<le> count_list (inbound_nodes (twice_graph ! 1)) 0
   \<and> (\<exists>h'. topological_sort first_ready twice_graph twice_feed = Some (Inl KeyError, h'))"
proof -
  have 1: "1 < length twice_graph" by (simp add: twice_graph_def)
  have 2: "2 \<le> count_list (inbound_nodes (twice_graph ! 1)) 0" by (simp add: twice_graph_def)
  from duplicate_edge_KeyError [OF wf_twice_graph feed_twice_graph acyclic_twice_graph, of first_ready]
  have "\<forall>p\<in>reachable twice_graph (map fst twice_feed). \<forall>m<length twice_graph.
            2 \<le> count_list (inbound_nodes (twice_graph ! m)) p
            \<longrightarrow> (\<exists>h'. topological_sort first_ready twice_graph twice_feed = Some (Inl KeyError, h'))"
    by (rule conjunct2)
  with reachable_twice_0 1 2
  have "\<exists>h'. topological_sort first_ready twice_graph twice_feed = Some (Inl KeyError, h')"
    by blast
  then show ?thesis
    using wf_twice_graph feed_twice_graph acyclic_twice_graph reachable_twice_0 1 2 by blast
qed




text \<open>
  A store where node 1 lies on a cycle and is reachable from the fed input 0: no exception is
  raised, the call does not return.
\<close>

theorem cyclic_graph_no_error:
  "1 \<in> reachable loop_graph (map fst loop_feed) \<and> (1, 1) \<in> (edges loop_graph)\<^sup>+
   \<and> topological_sort first_ready loop_graph loop_feed = None"
proof -
  from loop_graph_cycle have c: "1 \<in> reachable loop_graph (map fst loop_feed)"
    "(1, 1) \<in> (edges loop_graph)\<^sup>+" by simp_all
  from topological_sort_diverges [OF c] c show ?thesis by simp
qed

text \<open>
  C3, as the code has it. If a node reachable from the keys of the feed dictionary lies on a
  cycle of \<^verbatim>\<open>outbound_nodes\<close> links, \<^verbatim>\<open>topological_sort\<close> does not stop: its first loop appends
  the successors of every node it takes from the queue and never runs out. So it raises no
  exception, and it returns no list, truncated or not.
\<close>

theorem cyclic_graph_never_returns:
  assumes "c \<in> reachable h (map fst feed_dict)" "(c, c) \<in> (edges h)\<^sup>+"
  shows "topological_sort tie h feed_dict = None"
  using assms by (rule topological_sort_diverges)

theorem cyclic_graph_never_returns_witness:
  "1 \<in> reachable self_loop_graph (map fst loop_feed) \<and> (1, 1) \<in> (edges self_loop_graph)\<^sup>+
   \<and> topological_sort last_ready self_loop_graph loop_feed = None"
proof -
  have e: "(0, 1) \<in> edges self_loop_graph" "(1, 1) \<in> edges self_loop_graph"
    by (simp_all add: edges_def self_loop_graph_def)
  have 1: "1 \<in> reachable self_loop_graph (map fst loop_feed)"
    using e(1) by (auto simp: reachable_def loop_feed_def)
  have 2: "(1, 1) \<in> (edges self_loop_graph)\<^sup>+" using e(2) by (rule r_into_trancl)
  from cyclic_graph_never_returns [OF 1 2] 1 2 show ?thesis by simp
qed

section \<open>Construction\<close>

lemma length_add_outbound: "length (add_outbound s p h) = length h"
  by (simp add: add_outbound_def)

lemma nth_add_outbound:
  "add_outbound s p h ! n =
     (if n = p \<and> p < length h
      then (h ! p)\<lparr>outbound_nodes := outbound_nodes (h ! p) @ [s]\<rparr> else h ! n)"
  by (cases "p < length h") (auto simp: add_outbound_def list_update_beyond)

lemma fold_add_outbound:
  assumes "\<forall>p\<in>set ins. p < length h"
  shows "length (fold (add_outbound s) ins h) = length h
       \<and> (\<forall>n<length h. fold (add_outbound s) ins h ! n =
             (h ! n)\<lparr>outbound_nodes := outbound_nodes (h ! n) @ replicate (count_list ins n) s\<rparr>)"
  using assms
proof (induction ins arbitrary: h)
  case Nil
  then show ?case by simp
next
  case (Cons p ins)
  let ?h1 = "add_outbound s p h"
  have l1: "length ?h1 = length h" by (rule length_add_outbound)
  have pre: "\<forall>q\<in>set ins. q < length ?h1" using Cons.prems l1 by simp
  note ih = Cons.IH [OF pre, unfolded l1]
  have p: "p < length h" using Cons.prems by simp
  have "fold (add_outbound s) (p # ins) h ! n =
      (h ! n)\<lparr>outbound_nodes := outbound_nodes (h ! n) @ replicate (count_list (p # ins) n) s\<rparr>"
    if n: "n < length h" for n
  proof -
    have "fold (add_outbound s) (p # ins) h ! n =
        (?h1 ! n)\<lparr>outbound_nodes := outbound_nodes (?h1 ! n) @ replicate (count_list ins n) s\<rparr>"
      using ih n by simp
    also have "\<dots> = (h ! n)\<lparr>outbound_nodes :=
        outbound_nodes (h ! n) @ replicate (count_list (p # ins) n) s\<rparr>"
      using p by (simp add: nth_add_outbound)
    finally show ?thesis .
  qed
  then show ?case using ih by simp
qed

lemma Node_init_facts:
  assumes "\<forall>p\<in>set ins. p < length h"
  shows "snd (Node_init k ins h) = length h"
    and "length (fst (Node_init k ins h)) = Suc (length h)"
    and "fst (Node_init k ins h) ! length h =
          \<lparr>kind = k, inbound_nodes = ins, outbound_nodes = [], val = None\<rparr>"
    and "\<forall>p<length h. fst (Node_init k ins h) ! p =
          (h ! p)\<lparr>outbound_nodes := outbound_nodes (h ! p) @ replicate (count_list ins p) (length h)\<rparr>"
proof -
  let ?new = "\<lparr>kind = k, inbound_nodes = ins, outbound_nodes = [], val = None :: 'a option\<rparr>"
  let ?h1 = "h @ [?new]"
  have pre: "\<forall>p\<in>set ins. p < length ?h1" using assms by auto
  note f = fold_add_outbound [OF pre, of "length h"]
  have fst: "fst (Node_init k ins h) = fold (add_outbound (length h)) ins ?h1"
    by (simp add: Node_init_def Let_def)
  show "snd (Node_init k ins h) = length h" by (simp add: Node_init_def Let_def)
  show "length (fst (Node_init k ins h)) = Suc (length h)" using f fst by simp
  have c0: "count_list ins (length h) = 0" using assms by (intro count_notin) auto
  have "fold (add_outbound (length h)) ins ?h1 ! length h =
      (?h1 ! length h)\<lparr>outbound_nodes := outbound_nodes (?h1 ! length h)
         @ replicate (count_list ins (length h)) (length h)\<rparr>"
    using f by simp
  then show "fst (Node_init k ins h) ! length h = ?new" using fst c0 by simp
  show "\<forall>p<length h. fst (Node_init k ins h) ! p =
          (h ! p)\<lparr>outbound_nodes := outbound_nodes (h ! p) @ replicate (count_list ins p) (length h)\<rparr>"
  proof (intro allI impI)
    fix p assume p: "p < length h"
    then have "fold (add_outbound (length h)) ins ?h1 ! p =
      (?h1 ! p)\<lparr>outbound_nodes := outbound_nodes (?h1 ! p)
         @ replicate (count_list ins p) (length h)\<rparr>"
      using f by simp
    then show "fst (Node_init k ins h) ! p =
          (h ! p)\<lparr>outbound_nodes := outbound_nodes (h ! p) @ replicate (count_list ins p) (length h)\<rparr>"
      using fst p by (simp add: nth_append)
  qed
qed

lemma same_links_refl: "same_links h h"
  by (simp add: same_links_def)

lemma same_links_trans: "same_links h2 h1 \<Longrightarrow> same_links h1 h \<Longrightarrow> same_links h2 h"
  by (simp add: same_links_def)

lemma assign_value_same_links: "same_links (snd (assign_value n r h)) h"
  by (cases r) (simp_all add: assign_value_def same_links_refl same_links_set_value)

lemma forward_same_links: "same_links (snd (forward tm h n)) h"
  by (cases "kind (h ! n)")
    (simp_all add: forward_def Node_forward_def Input_forward_def Add_forward_def
      Linear_forward_def Sigmoid_forward_def assign_value_same_links same_links_refl)

lemma forward_all_same_links: "same_links (snd (forward_all tm h ns)) h"
proof (induction ns arbitrary: h)
  case Nil
  then show ?case by (simp add: same_links_refl)
next
  case (Cons n ns)
  obtain x h1 where f: "forward tm h n = (x, h1)" by (cases "forward tm h n")
  have s1: "same_links h1 h" using forward_same_links [of tm h n] f by simp
  show ?case
  proof (cases x)
    case (Inl e)
    then show ?thesis using f s1 by simp
  next
    case (Inr u)
    then have "forward_all tm h (n # ns) = forward_all tm h1 ns" using f by simp
    then show ?thesis using Cons.IH [of h1] s1 by (auto intro: same_links_trans)
  qed
qed

lemma forward_pass_same_links: "same_links (snd (forward_pass tm h out ns)) h"
proof -
  obtain x h1 where f: "forward_all tm h ns = (x, h1)" by (cases "forward_all tm h ns")
  then have "same_links h1 h" using forward_all_same_links [of tm h ns] by simp
  then show ?thesis using f by (cases x) (simp_all add: forward_pass_def)
qed

text \<open>
  \<^verbatim>\<open>a = Input(); f = Add(a, a)\<close>: the one pair (\<open>a\<close>, \<open>f\<close>) gets two back-references.
\<close>

theorem add_same_node_twice:
  "snd (new_add 0 0 (fst (new_input ([] :: int heap)))) = 1
   \<and> outbound_nodes (fst (new_add 0 0 (fst (new_input ([] :: int heap)))) ! 0) = [1, 1]
   \<and> count_list (outbound_nodes (fst (new_add 0 0 (fst (new_input ([] :: int heap)))) ! 0)) 1 = 2"
  by (simp add: new_add_def new_input_def Node_init_def add_outbound_def)

text \<open>
  C4, as the code has it. \<^verbatim>\<open>Node.__init__\<close> with the predecessor list \<open>ins\<close> (nodes that exist)
  makes the new node \<open>self\<close> with \<^verbatim>\<open>inbound_nodes\<close> = \<open>ins\<close>, no successor and no value, and
  appends \<open>self\<close> to the \<^verbatim>\<open>outbound_nodes\<close> of a node \<open>p\<close> once for every occurrence of \<open>p\<close> in
  \<open>ins\<close>: exactly once when \<open>p\<close> is listed once, not at all when it is not listed; nothing else
  in the store changes. The \<^verbatim>\<open>forward\<close> methods, \<^verbatim>\<open>forward_pass\<close> and \<^verbatim>\<open>topological_sort\<close> leave
  every \<^verbatim>\<open>outbound_nodes\<close> (and \<^verbatim>\<open>inbound_nodes\<close>) as it is.
\<close>

theorem Node_init_back_references:
  assumes "\<forall>p\<in>set ins. p < length h"
  shows "snd (Node_init k ins h) = length h
       \<and> length (fst (Node_init k ins h)) = Suc (length h)
       \<and> fst (Node_init k ins h) ! length h =
            \<lparr>kind = k, inbound_nodes = ins, outbound_nodes = [], val = None\<rparr>
       \<and> (\<forall>p<length h. fst (Node_init k ins h) ! p =
            (h ! p)\<lparr>outbound_nodes :=
               outbound_nodes (h ! p) @ replicate (count_list ins p) (length h)\<rparr>)
       \<and> same_links (snd (forward tm h n)) h
       \<and> same_links (snd (Input_forward h n v)) h
       \<and> same_links (snd (forward_pass tm h out ns)) h
       \<and> (\<forall>r. topological_sort tie h feed_dict = Some r \<longrightarrow> same_links (snd r) h)"
proof -
  have i: "same_links (snd (Input_forward h n v)) h"
    by (simp add: Input_forward_def same_links_refl same_links_set_value)
  have t: "\<forall>r. topological_sort tie h feed_dict = Some r \<longrightarrow> same_links (snd r) h"
    using topological_sort_frame [of tie h feed_dict] by (simp add: only_feeds_written_def)
  show ?thesis
    by (intro conjI) (rule Node_init_facts [OF assms] forward_same_links i
        forward_pass_same_links t)+
qed

lemma add_graph_constructed:
  "fst (new_add 0 1 (fst (new_input (fst (new_input []))))) = add_graph"
  by (simp add: new_add_def new_input_def Node_init_def add_outbound_def add_graph_def)

theorem Node_init_back_references_witness:
  "0 < length store0
   \<and> snd (Node_init Add [0, 0] store0) = 1
   \<and> outbound_nodes (fst (Node_init Add [0, 0] store0) ! 0) = [1, 1]
   \<and> inbound_nodes (fst (Node_init Add [0, 0] store0) ! 1) = [0, 0]"
proof -
  have h: "\<forall>p\<in>set [0, 0]. p < length store0" by (simp add: store0_def)
  have l: "length store0 = 1" "outbound_nodes (store0 ! 0) = []" by (simp_all add: store0_def)
  note t = Node_init_back_references [OF h, of Add int_math 0 None 0 "[]" first_ready "[]"]
  from t have "snd (Node_init Add [0, 0] store0) = length store0" by (rule conjunct1)
  moreover from t have "fst (Node_init Add [0, 0] store0) ! length store0 =
            \<lparr>kind = Add, inbound_nodes = [0, 0], outbound_nodes = [], val = None\<rparr>"
    by blast
  moreover from t have "\<forall>p<length store0. fst (Node_init Add [0, 0] store0) ! p =
            (store0 ! p)\<lparr>outbound_nodes :=
               outbound_nodes (store0 ! p) @ replicate (count_list [0, 0] p) (length store0)\<rparr>"
    by blast
  ultimately show ?thesis using l by (simp add: numeral_2_eq_2)
qed

lemma count_list_replicate: "count_list (replicate c x) m = (if x = m then c else 0)"
  by (induction c) auto

lemma wf_heap_Nil: "wf_heap []"
  by (simp add: wf_heap_def)

text \<open>The constructors keep a store well linked (an Input node is made with no predecessor).\<close>

lemma Node_init_wf_heap:
  assumes wfh: "wf_heap h" and ins: "\<forall>p\<in>set ins. p < length h"
    and inp: "k = Input \<longrightarrow> ins = []"
  shows "wf_heap (fst (Node_init k ins h))"
proof -
  let ?h' = "fst (Node_init k ins h)"
  let ?s = "length h"
  note f = Node_init_facts [OF ins, of k]
  have len: "length ?h' = Suc ?s" by (rule f(2))
  have new: "?h' ! ?s = \<lparr>kind = k, inbound_nodes = ins, outbound_nodes = [], val = None\<rparr>"
    by (rule f(3))
  have old: "?h' ! p = (h ! p)\<lparr>outbound_nodes :=
      outbound_nodes (h ! p) @ replicate (count_list ins p) ?s\<rparr>" if "p < ?s" for p
    using f(4) that by blast
  have out_old: "\<forall>m\<in>set (outbound_nodes (h ! n)). m < ?s" if "n < ?s" for n
    using wfh that unfolding wf_heap_def by blast
  have in_old: "\<forall>p\<in>set (inbound_nodes (h ! n)). p < ?s" if "n < ?s" for n
    using wfh that unfolding wf_heap_def by blast
  have 1: "\<forall>n<length ?h'. \<forall>m\<in>set (outbound_nodes (?h' ! n)). m < length ?h'"
  proof (intro allI impI ballI)
    fix n m assume n: "n < length ?h'" and m: "m \<in> set (outbound_nodes (?h' ! n))"
    show "m < length ?h'"
    proof (cases "n < ?s")
      case True
      then have "m \<in> set (outbound_nodes (h ! n)) \<or> m = ?s"
        using m old [OF True] by (auto split: if_splits)
      then show ?thesis using out_old [OF True] len by auto
    next
      case False
      then have "n = ?s" using n len by simp
      then show ?thesis using m new by simp
    qed
  qed
  have 2: "\<forall>n<length ?h'. \<forall>p\<in>set (inbound_nodes (?h' ! n)). p < length ?h'"
  proof (intro allI impI ballI)
    fix n p assume n: "n < length ?h'" and p: "p \<in> set (inbound_nodes (?h' ! n))"
    show "p < length ?h'"
    proof (cases "n < ?s")
      case True
      then have "p \<in> set (inbound_nodes (h ! n))" using p old [OF True] by simp
      then show ?thesis using in_old [OF True] len by auto
    next
      case False
      then have "n = ?s" using n len by simp
      then have "p \<in> set ins" using p new by simp
      then show ?thesis using ins len by auto
    qed
  qed
  have 3: "\<forall>p<length ?h'. \<forall>m<length ?h'.
      count_list (outbound_nodes (?h' ! p)) m = count_list (inbound_nodes (?h' ! m)) p"
  proof (intro allI impI)
    fix p m assume "p < length ?h'" "m < length ?h'"
    then have p: "p < ?s \<or> p = ?s" and m: "m < ?s \<or> m = ?s" using len by auto
    show "count_list (outbound_nodes (?h' ! p)) m = count_list (inbound_nodes (?h' ! m)) p"
    proof (cases "p < ?s")
      case pT: True
      show ?thesis
      proof (cases "m < ?s")
        case True
        then show ?thesis
          using old [OF pT] old [OF True] wf_heap_count [OF wfh pT True]
          by (simp add: count_list_replicate)
      next
        case False
        then have ms: "m = ?s" using m by simp
        have "count_list (outbound_nodes (h ! p)) ?s = 0"
          using out_old [OF pT] by (intro count_notin) auto
        then show ?thesis using old [OF pT] new ms by (simp add: count_list_replicate)
      qed
    next
      case False
      then have ps: "p = ?s" using p by simp
      show ?thesis
      proof (cases "m < ?s")
        case True
        have "count_list (inbound_nodes (h ! m)) ?s = 0"
          using in_old [OF True] by (intro count_notin) auto
        then show ?thesis using old [OF True] new ps by simp
      next
        case False
        then have ms: "m = ?s" using m by simp
        have "count_list ins ?s = 0" using ins by (intro count_notin) auto
        then show ?thesis using new ps ms by simp
      qed
    qed
  qed
  have 4: "\<forall>n<length ?h'. kind (?h' ! n) = Input \<longrightarrow> inbound_nodes (?h' ! n) = []"
  proof (intro allI impI)
    fix n assume n: "n < length ?h'" and k: "kind (?h' ! n) = Input"
    show "inbound_nodes (?h' ! n) = []"
    proof (cases "n < ?s")
      case True
      then show ?thesis using k old [OF True] wf_heap_input [OF wfh True] by simp
    next
      case False
      then have "n = ?s" using n len by simp
      then show ?thesis using k new inp by simp
    qed
  qed
  show ?thesis unfolding wf_heap_def using 1 2 3 4 by blast
qed

section \<open>Add, and the example of the sum\<close>

lemma add_graph_discovered:
  "discover add_graph [0, 1] Map.empty =
     Some [0 \<mapsto> ({}, {2}), 2 \<mapsto> ({0, 1}, {}), 1 \<mapsto> ({}, {2})]"
  by (simp add: add_graph_def discover.simps ensure_def link_def Let_def fun_upd_twist insert_commute)

lemma add_graph_drained:
  "drain tie add_feed [0, 1] [] [0 \<mapsto> ({}, {2}), 2 \<mapsto> ({0, 1}, {}), 1 \<mapsto> ({}, {2})] add_graph =
     Some (Inr (if tie 0 mod 2 = 0 then [0, 1, 2] else [1, 0, 2]), fed_add_graph)"
proof (cases "tie 0 mod 2 = 0")
  case True
  then have t: "tie 0 mod Suc (Suc 0) = 0" by (simp add: numeral_2_eq_2)
  show ?thesis
    using True t
    by (simp add: add_graph_def add_feed_def drain.simps feed_value_def set_value_def Let_def
        fed_add_graph_def insert_Diff_if)
next
  case False
  then have t: "tie 0 mod Suc (Suc 0) = Suc 0" by (simp add: numeral_2_eq_2) presburger
  show ?thesis
    using False t
    by (simp add: add_graph_def add_feed_def drain.simps feed_value_def set_value_def Let_def
        fed_add_graph_def insert_Diff_if)
qed

lemma add_graph_sorted:
  "topological_sort tie add_graph add_feed =
     Some (Inr (if tie 0 mod 2 = 0 then [0, 1, 2] else [1, 0, 2]), fed_add_graph)"
proof -
  have k: "map fst add_feed = [0, 1]" by (simp add: add_feed_def)
  have r: "remdups [0, 1 :: nat] = [0, 1]" by simp
  show ?thesis
    unfolding topological_sort_def Let_def k r add_graph_discovered option.case
    by (rule add_graph_drained)
qed

lemma Add_forward_value:
  assumes "n < length h" "inbound_nodes (h ! n) = [x, y]"
    "val (h ! x) = Some a" "val (h ! y) = Some b" "tm_add tm a b = Inr c"
  shows "Add_forward tm h n = (Inr (), set_value n (Some c) h)"
  using assms
  by (simp add: Add_forward_def Add_value_def assign_value_def bind_err_def index_def operand_def)

lemma fed_add_graph_forward:
  assumes "tm_add tm 5 10 = Inr 15"
  shows "forward_pass tm fed_add_graph 2 (if tie 0 mod 2 = 0 then [0, 1, 2] else [1, 0, 2]) =
     (Inr (Some 15), set_value 2 (Some 15) fed_add_graph)"
proof -
  have i: "forward tm fed_add_graph 0 = (Inr (), fed_add_graph)"
    "forward tm fed_add_graph 1 = (Inr (), fed_add_graph)"
    by (simp_all add: forward_def Input_forward_def fed_add_graph_def)
  have "Add_forward tm fed_add_graph 2 = (Inr (), set_value 2 (Some 15) fed_add_graph)"
    by (rule Add_forward_value [where x = 0 and y = 1 and a = 5 and b = 10])
      (simp_all add: fed_add_graph_def assms)
  moreover have "kind (fed_add_graph ! 2) = Add" by (simp add: fed_add_graph_def)
  ultimately have a: "forward tm fed_add_graph 2 = (Inr (), set_value 2 (Some 15) fed_add_graph)"
    by (simp add: forward_def)
  have v: "val (set_value 2 (Some 15) fed_add_graph ! 2) = Some 15"
    by (simp add: nth_set_value fed_add_graph_def)
  show ?thesis using i a v by (simp add: forward_pass_def)
qed

text \<open>
  C7. When the \<^verbatim>\<open>inbound_nodes\<close> of a node \<open>n\<close> are \<open>[x, y]\<close> and the value slots of \<open>x\<close> and \<open>y\<close>
  hold \<open>a\<close> and \<open>b\<close>, \<^verbatim>\<open>Add.forward\<close> returns normally and leaves the sum \<open>a + b\<close> (as the
  arithmetic of the values computes it) in the value slot of \<open>n\<close>. For the graph built by
  \<^verbatim>\<open>a = Input(); b = Input(); f = Add(a, b)\<close>, fed 5 and 10, \<^verbatim>\<open>topological_sort\<close> followed by
  \<^verbatim>\<open>forward_pass\<close> with output \<open>f\<close> returns 15, whatever element \<^verbatim>\<open>S.pop()\<close> takes.
\<close>

theorem Add_forward_sum:
  "(n < length h \<and> inbound_nodes (h ! n) = [x, y] \<and> val (h ! x) = Some a \<and> val (h ! y) = Some b
      \<and> tm_add tm a b = Inr c
    \<longrightarrow> Add_forward tm h n = (Inr (), set_value n (Some c) h)
      \<and> val (snd (Add_forward tm h n) ! n) = Some c)
   \<and> (tm_add tmi 5 10 = Inr 15
    \<longrightarrow> (\<exists>h'. run_graph tmi tie (fst (new_add 0 1 (fst (new_input (fst (new_input []))))))
                 add_feed 2 = Some (Inr (Some 15), h')))"
proof (intro conjI impI)
  assume h: "n < length h \<and> inbound_nodes (h ! n) = [x, y] \<and> val (h ! x) = Some a
      \<and> val (h ! y) = Some b \<and> tm_add tm a b = Inr c"
  then have h1: "n < length h" and h2: "inbound_nodes (h ! n) = [x, y]"
    and h3: "val (h ! x) = Some a" and h4: "val (h ! y) = Some b" and h5: "tm_add tm a b = Inr c"
    by simp_all
  have e: "Add_forward tm h n = (Inr (), set_value n (Some c) h)"
    by (rule Add_forward_value [OF h1 h2 h3 h4 h5])
  then show "Add_forward tm h n = (Inr (), set_value n (Some c) h)" .
  show "val (snd (Add_forward tm h n) ! n) = Some c"
    using h by (simp add: e nth_set_value)
next
  assume "tm_add tmi 5 10 = Inr 15"
  note f = fed_add_graph_forward [OF this, of tie]
  have "run_graph tmi tie (fst (new_add 0 1 (fst (new_input (fst (new_input []))))))
          add_feed 2 =
        Some (forward_pass tmi fed_add_graph 2 (if tie 0 mod 2 = 0 then [0, 1, 2] else [1, 0, 2]))"
    unfolding run_graph_def add_graph_constructed add_graph_sorted by simp
  then show "\<exists>h'. run_graph tmi tie (fst (new_add 0 1 (fst (new_input (fst (new_input []))))))
                 add_feed 2 = Some (Inr (Some 15), h')"
    unfolding f by blast
qed

theorem Add_forward_sum_witness:
  "2 < length fed_add_graph \<and> inbound_nodes (fed_add_graph ! 2) = [0, 1]
   \<and> val (fed_add_graph ! 0) = Some 5 \<and> val (fed_add_graph ! 1) = Some 10
   \<and> tm_add int_math 5 10 = Inr 15
   \<and> val (snd (Add_forward int_math fed_add_graph 2) ! 2) = Some 15
   \<and> (\<exists>h'. run_graph int_math first_ready (fst (new_add 0 1 (fst (new_input (fst (new_input []))))))
                 add_feed 2 = Some (Inr (Some 15), h'))"
proof -
  have h: "2 < length fed_add_graph \<and> inbound_nodes (fed_add_graph ! 2) = [0, 1]
      \<and> val (fed_add_graph ! 0) = Some 5 \<and> val (fed_add_graph ! 1) = Some 10
      \<and> tm_add int_math 5 10 = Inr 15"
    by (simp add: fed_add_graph_def int_math_def)
  then have m: "tm_add int_math 5 10 = Inr 15" by simp
  note t = Add_forward_sum [of 2 fed_add_graph 0 1 5 10 int_math 15 int_math first_ready]
  note 1 = t [THEN conjunct1, THEN mp, OF h, THEN conjunct2]
  note 2 = t [THEN conjunct2, THEN mp, OF m]
  show ?thesis using h 1 2 by (intro conjI) simp_all
qed

section \<open>Running twice\<close>

lemma set_value_same: "set_value n (val (h ! n)) h = h"
  by (simp add: set_value_def)

lemma forward_by_value:
  "forward tm h n =
     (case forward_value tm h n of
        Inl e \<Rightarrow> (Inl e, h)
      | Inr v \<Rightarrow> (Inr (), set_value n v h))"
proof (cases "kind (h ! n)")
  case Base
  then show ?thesis by (simp add: forward_def forward_value_def Node_forward_def)
next
  case Input
  then show ?thesis
    by (simp add: forward_def forward_value_def Input_forward_def set_value_same)
next
  case Add
  then show ?thesis
    by (cases "Add_value tm h n")
      (simp_all add: forward_def forward_value_def Add_forward_def assign_value_def bind_err_def)
next
  case Linear
  then show ?thesis
    by (cases "Linear_value tm h n")
      (simp_all add: forward_def forward_value_def Linear_forward_def assign_value_def bind_err_def)
next
  case Sigmoid
  then show ?thesis
    by (cases "Sigmoid_value tm h n")
      (simp_all add: forward_def forward_value_def Sigmoid_forward_def assign_value_def bind_err_def)
qed

lemma index_cong:
  "index xs i = Inr p \<Longrightarrow> p \<in> set xs"
  by (auto simp: index_def split: if_splits)

lemma bind_index_cong:
  assumes "\<And>p. p \<in> set xs \<Longrightarrow> f p = g p"
  shows "bind_err (index xs i) f = bind_err (index xs i) g"
  using assms by (cases "index xs i") (auto simp: bind_err_def dest: index_cong)

lemma forward_value_cong:
  assumes k: "kind (h ! n) = kind (g ! n)"
    and i: "inbound_nodes (h ! n) = inbound_nodes (g ! n)"
    and v: "\<And>p. p \<in> set (inbound_nodes (g ! n)) \<Longrightarrow> val (h ! p) = val (g ! p)"
    and s: "kind (g ! n) = Input \<Longrightarrow> val (h ! n) = val (g ! n)"
  shows "forward_value tm h n = forward_value tm g n"
proof -
  let ?ins = "inbound_nodes (g ! n)"
  have a: "Add_value tm h n = Add_value tm g n"
    unfolding Add_value_def i
    by (intro bind_index_cong) (simp add: v)
  have l: "Linear_value tm h n = Linear_value tm g n"
    unfolding Linear_value_def i
    by (intro bind_index_cong) (simp add: v)
  have sg: "Sigmoid_value tm h n = Sigmoid_value tm g n"
    unfolding Sigmoid_value_def i
    by (intro bind_index_cong) (simp add: v)
  show ?thesis
    unfolding forward_value_def k a l sg
    using s by (cases "kind (g ! n)") simp_all
qed

lemma forward_Inr:
  assumes "forward tm g n = (Inr u, g1)"
  shows "\<exists>v. forward_value tm g n = Inr v \<and> g1 = set_value n v g"
  using assms unfolding forward_by_value [of tm g n]
  by (cases "forward_value tm g n") simp_all

lemma forward_input_unchanged:
  assumes "forward tm g n = (r, g1)" "kind (g ! m) = Input"
  shows "val (g1 ! m) = val (g ! m)"
proof (cases "forward_value tm g n")
  case (Inl e)
  then show ?thesis using assms(1) unfolding forward_by_value [of tm g n] by simp
next
  case (Inr v)
  then have g1: "g1 = set_value n v g" using assms(1) unfolding forward_by_value [of tm g n] by simp
  show ?thesis
  proof (cases "m = n")
    case True
    then have "v = val (g ! n)" using Inr assms(2) by (simp add: forward_value_def)
    then show ?thesis using g1 True by (simp add: set_value_same)
  next
    case False
    then show ?thesis using g1 by (simp add: nth_set_value)
  qed
qed

lemma forward_all_input_unchanged:
  "forward_all tm g L = (r, g') \<Longrightarrow> m < length g \<Longrightarrow> kind (g ! m) = Input
     \<Longrightarrow> val (g' ! m) = val (g ! m)"
proof (induction L arbitrary: g)
  case Nil
  then show ?case by simp
next
  case (Cons n ns)
  obtain x g1 where f: "forward tm g n = (x, g1)" by (cases "forward tm g n")
  have v1: "val (g1 ! m) = val (g ! m)" using forward_input_unchanged [OF f Cons.prems(3)] .
  have sl: "same_links g1 g" using forward_same_links [of tm g n] f by simp
  show ?case
  proof (cases x)
    case (Inl e)
    then show ?thesis using Cons.prems(1) f v1 by simp
  next
    case (Inr u)
    then have rest: "forward_all tm g1 ns = (r, g')" using Cons.prems(1) f by simp
    have m1: "m < length g1" using sl Cons.prems(2) by (simp add: same_links_def)
    have "kind (g1 ! m) = Input" using sl Cons.prems(2,3) by (simp add: same_links_def)
    from Cons.IH [OF rest m1 this] v1 show ?thesis by simp
  qed
qed

lemma same_links_fields:
  assumes "same_links g' g" "n < length g"
  shows "kind (g' ! n) = kind (g ! n)" "inbound_nodes (g' ! n) = inbound_nodes (g ! n)"
    "outbound_nodes (g' ! n) = outbound_nodes (g ! n)" "length g' = length g"
  using assms by (simp_all add: same_links_def)

lemma forward_all_stable:
  assumes "distinct L" "\<forall>n\<in>set L. n < length g"
    and "\<forall>i<length L. \<forall>p\<in>set (inbound_nodes (g ! (L ! i))). p < length g \<and> p \<notin> set (drop i L)"
    and "forward_all tm g L = (Inr u, g')"
  shows "same_links g' g
       \<and> (\<forall>m<length g. m \<notin> set L \<longrightarrow> val (g' ! m) = val (g ! m))
       \<and> (\<forall>n\<in>set L. forward_value tm g' n = Inr (val (g' ! n)))"
  using assms
proof (induction L arbitrary: g)
  case Nil
  then show ?case by (simp add: same_links_refl)
next
  case (Cons n ns)
  note reads = Cons.prems(3)
  have n: "n < length g" "n \<notin> set ns" and dns: "distinct ns" using Cons.prems(1,2) by simp_all
  obtain x g1 where f: "forward tm g n = (x, g1)" by (cases "forward tm g n")
  have "\<exists>u1. x = Inr u1" using Cons.prems(4) f by (cases x) simp_all
  then obtain u1 where x: "x = Inr u1" by blast
  then have rest: "forward_all tm g1 ns = (Inr u, g')" using Cons.prems(4) f by simp
  from forward_Inr [OF f [unfolded x]] obtain v where
    fv: "forward_value tm g n = Inr v" and g1: "g1 = set_value n v g" by blast
  have sl1: "same_links g1 g" unfolding g1 by (rule same_links_set_value) (rule same_links_refl)
  have l1: "length g1 = length g" using sl1 by (simp add: same_links_def)
  have in1: "\<forall>q\<in>set ns. q < length g1" using Cons.prems(2) l1 by simp
  have reads1: "\<forall>i<length ns. \<forall>p\<in>set (inbound_nodes (g1 ! (ns ! i))).
      p < length g1 \<and> p \<notin> set (drop i ns)"
  proof (intro allI impI ballI)
    fix i p assume i: "i < length ns" and p: "p \<in> set (inbound_nodes (g1 ! (ns ! i)))"
    have "ns ! i < length g" using Cons.prems(2) i by simp
    then have "inbound_nodes (g1 ! (ns ! i)) = inbound_nodes (g ! ((n # ns) ! Suc i))"
      using same_links_fields(2) [OF sl1] by simp
    then have "p \<in> set (inbound_nodes (g ! ((n # ns) ! Suc i)))" using p by simp
    moreover have "Suc i < length (n # ns)" using i by simp
    ultimately have "p < length g \<and> p \<notin> set (drop (Suc i) (n # ns))" using reads by blast
    then show "p < length g1 \<and> p \<notin> set (drop i ns)" using l1 by simp
  qed
  from Cons.IH [OF dns in1 reads1 rest] have
    sl': "same_links g' g1"
    and out: "\<forall>m<length g1. m \<notin> set ns \<longrightarrow> val (g' ! m) = val (g1 ! m)"
    and st: "\<forall>q\<in>set ns. forward_value tm g' q = Inr (val (g' ! q))"
    by blast+
  have sl: "same_links g' g" using sl' sl1 by (rule same_links_trans)
  have vn: "val (g' ! n) = v" using out n l1 by (simp add: g1 nth_set_value)
  have other: "val (g' ! m) = val (g ! m)" if "m < length g" "m \<noteq> n" "m \<notin> set ns" for m
    using out that l1 by (simp add: g1 nth_set_value)
  have stn: "forward_value tm g' n = Inr (val (g' ! n))"
  proof -
    have "forward_value tm g' n = forward_value tm g n"
    proof (rule forward_value_cong)
      show "kind (g' ! n) = kind (g ! n)" using same_links_fields(1) [OF sl n(1)] .
      show "inbound_nodes (g' ! n) = inbound_nodes (g ! n)" using same_links_fields(2) [OF sl n(1)] .
    next
      fix p assume "p \<in> set (inbound_nodes (g ! n))"
      then have "p < length g \<and> p \<notin> set (drop 0 (n # ns))"
        using reads [rule_format, of 0 p] by simp
      then show "val (g' ! p) = val (g ! p)" using other [of p] by simp
    next
      assume "kind (g ! n) = Input"
      then have "v = val (g ! n)" using fv by (simp add: forward_value_def)
      then show "val (g' ! n) = val (g ! n)" using vn by simp
    qed
    then show ?thesis using fv vn by simp
  qed
  show ?case
  proof (intro conjI allI impI ballI)
    show "same_links g' g" by (rule sl)
  next
    fix m assume "m < length g" "m \<notin> set (n # ns)"
    then show "val (g' ! m) = val (g ! m)" using other [of m] by simp
  next
    fix q assume "q \<in> set (n # ns)"
    then show "forward_value tm g' q = Inr (val (g' ! q))" using stn st by auto
  qed
qed

lemma stable_forward_all:
  assumes "\<forall>n\<in>set L. forward_value tm h n = Inr (val (h ! n))"
  shows "forward_all tm h L = (Inr (), h)"
  using assms
proof (induction L)
  case Nil
  then show ?case by simp
next
  case (Cons n ns)
  then have "forward tm h n = (Inr (), h)"
    unfolding forward_by_value [of tm h n] by (simp add: set_value_same)
  then show ?case using Cons by simp
qed

lemma same_links_edges:
  assumes "same_links g h"
  shows "edges g = edges h"
proof -
  have l: "length g = length h" using assms by (simp add: same_links_def)
  have "(n, m) \<in> edges g \<longleftrightarrow> (n, m) \<in> edges h" for n m
    using same_links_fields(3) [OF assms, of n] by (auto simp: edges_def l)
  then show ?thesis by auto
qed

lemma same_links_reachable: "same_links g h \<Longrightarrow> reachable g ks = reachable h ks"
  by (simp add: reachable_def same_links_edges)

lemma same_links_graph_edges: "same_links g h \<Longrightarrow> graph_edges g fd = graph_edges h fd"
  by (simp add: graph_edges_def same_links_edges same_links_reachable)

lemma same_links_wf_heap:
  assumes "same_links g h" "wf_heap h"
  shows "wf_heap g"
proof -
  have l: "length g = length h" using assms(1) by (simp add: same_links_def)
  note f = same_links_fields [OF assms(1)]
  have 1: "\<forall>n<length g. \<forall>m\<in>set (outbound_nodes (g ! n)). m < length g"
  proof (intro allI impI ballI)
    fix n m assume "n < length g" "m \<in> set (outbound_nodes (g ! n))"
    then have "n < length h" "m \<in> set (outbound_nodes (h ! n))" using l f(3) by simp_all
    then show "m < length g" using assms(2) l unfolding wf_heap_def by metis
  qed
  have 2: "\<forall>n<length g. \<forall>p\<in>set (inbound_nodes (g ! n)). p < length g"
  proof (intro allI impI ballI)
    fix n p assume "n < length g" "p \<in> set (inbound_nodes (g ! n))"
    then have "n < length h" "p \<in> set (inbound_nodes (h ! n))" using l f(2) by simp_all
    then show "p < length g" using assms(2) l unfolding wf_heap_def by metis
  qed
  have 3: "\<forall>p<length g. \<forall>m<length g.
      count_list (outbound_nodes (g ! p)) m = count_list (inbound_nodes (g ! m)) p"
  proof (intro allI impI)
    fix p m assume "p < length g" "m < length g"
    then have pm: "p < length h" "m < length h" using l by simp_all
    show "count_list (outbound_nodes (g ! p)) m = count_list (inbound_nodes (g ! m)) p"
      using wf_heap_count [OF assms(2) pm] f(3) [OF pm(1)] f(2) [OF pm(2)] by simp
  qed
  have 4: "\<forall>n<length g. kind (g ! n) = Input \<longrightarrow> inbound_nodes (g ! n) = []"
  proof (intro allI impI)
    fix n assume "n < length g" "kind (g ! n) = Input"
    then have n: "n < length h" "kind (h ! n) = Input" using l f(1) by simp_all
    show "inbound_nodes (g ! n) = []"
      using wf_heap_input [OF assms(2) n] f(2) [OF n(1)] by simp
  qed
  show ?thesis unfolding wf_heap_def using 1 2 3 4 by blast
qed

lemma same_links_feed_inputs:
  assumes "same_links g h" "feed_inputs h fd"
  shows "feed_inputs g fd"
  using assms by (simp add: feed_inputs_def same_links_def)

lemma node_eqI:
  fixes a b :: "'v node"
  assumes "kind a = kind b" "inbound_nodes a = inbound_nodes b"
    "outbound_nodes a = outbound_nodes b" "val a = val b"
  shows "a = b"
  using assms by (cases a, cases b) simp

lemma heap_eqI:
  assumes "same_links g h" "\<forall>n<length h. val (g ! n) = val (h ! n)"
  shows "g = h"
proof (rule nth_equalityI)
  show "length g = length h" using assms(1) by (simp add: same_links_def)
next
  fix n assume "n < length g"
  then have n: "n < length h" using assms(1) by (simp add: same_links_def)
  show "g ! n = h ! n"
    using same_links_fields(1-3) [OF assms(1) n] assms(2) n by (intro node_eqI) simp_all
qed

lemma inbound_is_edge:
  assumes "wf_heap h" "m < length h" "p \<in> set (inbound_nodes (h ! m))"
  shows "p < length h \<and> m \<in> set (outbound_nodes (h ! p))"
proof -
  have p: "p < length h" using assms unfolding wf_heap_def by blast
  have "count_list (inbound_nodes (h ! m)) p \<noteq> 0"
    using assms(3) count_list_0_iff [of "inbound_nodes (h ! m)" p] by simp
  then have "count_list (outbound_nodes (h ! p)) m \<noteq> 0"
    using wf_heap_count [OF assms(1) p assms(2)] by simp
  then have "m \<in> set (outbound_nodes (h ! p))"
    using count_list_0_iff [of "outbound_nodes (h ! p)" m] by simp
  then show ?thesis using p by simp
qed

lemma sorted_reads_earlier:
  assumes wfh: "wf_heap h" and d: "distinct L" and s: "set L = A"
    and pf: "preds_first h A L" and inA: "\<forall>n\<in>A. n < length h"
  shows "\<forall>i<length L. \<forall>p\<in>set (inbound_nodes (h ! (L ! i))). p < length h \<and> p \<notin> set (drop i L)"
proof (intro allI impI ballI)
  fix i p assume i: "i < length L" and p: "p \<in> set (inbound_nodes (h ! (L ! i)))"
  have m: "L ! i < length h" using i s inA by auto
  from inbound_is_edge [OF wfh m p] have pl: "p < length h"
    and e: "L ! i \<in> set (outbound_nodes (h ! p))" by simp_all
  have "p \<notin> set (drop i L)"
  proof (cases "p \<in> A")
    case True
    then have "p \<in> set (take i L)" using pf i e by (simp add: preds_first_def)
    moreover have "set (take i L) \<inter> set (drop i L) = {}"
      using d distinct_append [of "take i L" "drop i L"] by simp
    ultimately show ?thesis by blast
  next
    case False
    then have "p \<notin> set L" using s by simp
    then show ?thesis by (blast dest: in_set_dropD)
  qed
  then show "p < length h \<and> p \<notin> set (drop i L)" using pl by simp
qed

lemma fed_reachable_range:
  assumes "wf_heap h" "feed_inputs h feed_dict" "n \<in> reachable h (map fst feed_dict)"
  shows "n < length h"
proof -
  have "\<forall>k\<in>set (map fst feed_dict). k < length h"
    using assms(2) unfolding feed_inputs_def by blast
  then show ?thesis using assms(1,3) by (intro reachable_range)
qed

lemma run_graph_Inr:
  assumes "run_graph tm tie h feed_dict out = Some (Inr v, h1)"
  shows "\<exists>L g. topological_sort tie h feed_dict = Some (Inr L, g)
           \<and> forward_pass tm g out L = (Inr v, h1)"
proof (cases "topological_sort tie h feed_dict")
  case None
  then show ?thesis using assms by (simp add: run_graph_def)
next
  case (Some r)
  obtain x g where r: "r = (x, g)" by (cases r)
  show ?thesis
  proof (cases x)
    case (Inl e)
    then show ?thesis using assms Some r by (simp add: run_graph_def)
  next
    case (Inr L)
    then show ?thesis using assms Some r by (simp add: run_graph_def)
  qed
qed

lemma forward_pass_Inr:
  assumes "forward_pass tm g out L = (Inr v, h1)"
  shows "forward_all tm g L = (Inr (), h1) \<and> v = val (h1 ! out)"
proof -
  obtain x g' where f: "forward_all tm g L = (x, g')" by (cases "forward_all tm g L")
  show ?thesis using assms f by (cases x) (auto simp: forward_pass_def)
qed

lemma first_run_settled:
  assumes wfh: "wf_heap h" and fi: "feed_inputs h feed_dict"
    and run: "run_graph tm tie h feed_dict out = Some (Inr v, h1)"
  shows "settled tm h feed_dict h1 \<and> v = val (h1 ! out)
       \<and> acyclic (graph_edges h feed_dict)
       \<and> (\<forall>n\<in>reachable h (map fst feed_dict). distinct (outbound_nodes (h ! n)))
       \<and> (\<exists>L. distinct L \<and> set L = reachable h (map fst feed_dict)
              \<and> preds_first h (reachable h (map fst feed_dict)) L)"
proof -
  let ?A = "reachable h (map fst feed_dict)"
  from run_graph_Inr [OF run] obtain L g where
    ts: "topological_sort tie h feed_dict = Some (Inr L, g)"
    and fp: "forward_pass tm g out L = (Inr v, h1)" by blast
  from forward_pass_Inr [OF fp] have fa: "forward_all tm g L = (Inr (), h1)"
    and v: "v = val (h1 ! out)" by simp_all
  have ac: "acyclic (graph_edges h feed_dict)" using ts by (rule returns_acyclic)
  from topological_sort_returns [OF wfh fi ac, of tie] ts
  have post: "drain_post h feed_dict ?A (Inr L, g)" by simp
  from sorted_cases [OF post] have d: "distinct L" and s: "set L = ?A"
    and pf: "preds_first h ?A L" and slg: "same_links g h"
    and fv: "fed_values h feed_dict ?A g"
    and dist: "\<forall>n\<in>?A. distinct (outbound_nodes (h ! n))" by simp_all
  have inA: "\<forall>n\<in>?A. n < length h"
    using fed_reachable_range [OF wfh fi] by blast
  have lg: "length g = length h" using slg by (simp add: same_links_def)
  note reads = sorted_reads_earlier [OF wfh d s pf inA]
  have reads_g: "\<forall>i<length L. \<forall>p\<in>set (inbound_nodes (g ! (L ! i))).
      p < length g \<and> p \<notin> set (drop i L)"
  proof (intro allI impI ballI)
    fix i p assume i: "i < length L" and p: "p \<in> set (inbound_nodes (g ! (L ! i)))"
    have "L ! i < length h" using i s inA by auto
    then have "inbound_nodes (g ! (L ! i)) = inbound_nodes (h ! (L ! i))"
      using same_links_fields(2) [OF slg] by simp
    then show "p < length g \<and> p \<notin> set (drop i L)" using reads i p lg by simp
  qed
  have inL: "\<forall>n\<in>set L. n < length g" using s inA lg by simp
  from forward_all_stable [OF d inL reads_g fa] have
    sl1: "same_links h1 g"
    and out: "\<forall>m<length g. m \<notin> set L \<longrightarrow> val (h1 ! m) = val (g ! m)"
    and st: "\<forall>n\<in>set L. forward_value tm h1 n = Inr (val (h1 ! n))" by blast+
  have sl: "same_links h1 h" using sl1 slg by (rule same_links_trans)
  have 1: "\<forall>n<length h. n \<notin> ?A \<longrightarrow> val (h1 ! n) = val (h ! n)"
  proof (intro allI impI)
    fix n assume n: "n < length h" "n \<notin> ?A"
    then have "val (h1 ! n) = val (g ! n)" using out lg s by simp
    also have "\<dots> = val (h ! n)" using fv n by (simp add: fed_values_def)
    finally show "val (h1 ! n) = val (h ! n)" .
  qed
  have 2: "\<forall>n\<in>?A. kind (h ! n) = Input \<longrightarrow> val (h1 ! n) = the (map_of feed_dict n)"
  proof (intro ballI impI)
    fix n assume n: "n \<in> ?A" "kind (h ! n) = Input"
    then have nl: "n < length h" using inA by simp
    then have k: "kind (g ! n) = Input" using same_links_fields(1) [OF slg nl] n(2) by simp
    have "val (h1 ! n) = val (g ! n)"
      using forward_all_input_unchanged [OF fa _ k] nl lg by simp
    also have "\<dots> = the (map_of feed_dict n)" using fv n nl by (simp add: fed_values_def)
    finally show "val (h1 ! n) = the (map_of feed_dict n)" .
  qed
  have "settled tm h feed_dict h1"
    unfolding settled_def using sl 1 2 st s by simp
  moreover have "\<exists>L. distinct L \<and> set L = ?A \<and> preds_first h ?A L"
    using d s pf by blast
  ultimately show ?thesis using v ac dist by simp
qed

lemma settled_rerun:
  assumes wfh: "wf_heap h" and fi: "feed_inputs h feed_dict"
    and ac: "acyclic (graph_edges h feed_dict)"
    and dist: "\<forall>n\<in>reachable h (map fst feed_dict). distinct (outbound_nodes (h ! n))"
    and se: "settled tm h feed_dict h1"
  shows "run_graph tm tie h1 feed_dict out = Some (Inr (val (h1 ! out)), h1)"
proof -
  let ?A = "reachable h (map fst feed_dict)"
  from se have sl: "same_links h1 h"
    and inp: "\<forall>n\<in>?A. kind (h ! n) = Input \<longrightarrow> val (h1 ! n) = the (map_of feed_dict n)"
    and st: "\<forall>n\<in>?A. forward_value tm h1 n = Inr (val (h1 ! n))"
    by (simp_all add: settled_def)
  have l1: "length h1 = length h" using sl by (simp add: same_links_def)
  have A1: "reachable h1 (map fst feed_dict) = ?A" using sl by (rule same_links_reachable)
  have wf1: "wf_heap h1" using sl wfh by (rule same_links_wf_heap)
  have fi1: "feed_inputs h1 feed_dict" using sl fi by (rule same_links_feed_inputs)
  have ac1: "acyclic (graph_edges h1 feed_dict)" using ac same_links_graph_edges [OF sl] by simp
  have inA: "\<forall>n\<in>?A. n < length h"
    using fed_reachable_range [OF wfh fi] by blast
  from topological_sort_returns [OF wf1 fi1 ac1, of tie] obtain r where
    ts: "topological_sort tie h1 feed_dict = Some r" and post: "drain_post h1 feed_dict ?A r"
    unfolding A1 by blast
  have dist1: "\<not> (\<exists>n\<in>?A. \<not> distinct (outbound_nodes (h1 ! n)))"
    using dist inA same_links_fields(3) [OF sl] by simp
  from sorted_cases [OF post] dist1 obtain L g where r: "r = (Inr L, g)"
    and s: "set L = ?A" and slg: "same_links g h1" and fv: "fed_values h1 feed_dict ?A g"
    by blast
  have "g = h1"
  proof (rule heap_eqI [OF slg], intro allI impI)
    fix n assume n: "n < length h1"
    then have nh: "n < length h" using l1 by simp
    have k: "kind (h1 ! n) = kind (h ! n)" using same_links_fields(1) [OF sl nh] .
    show "val (g ! n) = val (h1 ! n)"
      using fv n inp k unfolding fed_values_def by (cases "n \<in> ?A \<and> kind (h1 ! n) = Input") auto
  qed
  then have ts1: "topological_sort tie h1 feed_dict = Some (Inr L, h1)" using ts r by simp
  have "forward_all tm h1 L = (Inr (), h1)"
    by (rule stable_forward_all) (use st s in simp)
  then have "forward_pass tm h1 out L = (Inr (val (h1 ! out)), h1)"
    by (simp add: forward_pass_def)
  then show ?thesis using ts1 by (simp add: run_graph_def)
qed

lemma same_links_sym: "same_links g h \<Longrightarrow> same_links h g"
  by (simp add: same_links_def)

lemma settled_unique:
  assumes wfh: "wf_heap h" and fi: "feed_inputs h feed_dict"
    and s1: "settled tm h feed_dict h1" and s2: "settled tm h feed_dict h2"
    and d: "distinct L" and s: "set L = reachable h (map fst feed_dict)"
    and pf: "preds_first h (reachable h (map fst feed_dict)) L"
  shows "h1 = h2"
proof -
  let ?A = "reachable h (map fst feed_dict)"
  from s1 have sl1: "same_links h1 h"
    and o1: "\<forall>n<length h. n \<notin> ?A \<longrightarrow> val (h1 ! n) = val (h ! n)"
    and i1: "\<forall>n\<in>?A. kind (h ! n) = Input \<longrightarrow> val (h1 ! n) = the (map_of feed_dict n)"
    and t1: "\<forall>n\<in>?A. forward_value tm h1 n = Inr (val (h1 ! n))"
    by (simp_all add: settled_def)
  from s2 have sl2: "same_links h2 h"
    and o2: "\<forall>n<length h. n \<notin> ?A \<longrightarrow> val (h2 ! n) = val (h ! n)"
    and i2: "\<forall>n\<in>?A. kind (h ! n) = Input \<longrightarrow> val (h2 ! n) = the (map_of feed_dict n)"
    and t2: "\<forall>n\<in>?A. forward_value tm h2 n = Inr (val (h2 ! n))"
    by (simp_all add: settled_def)
  have inA: "\<forall>n\<in>?A. n < length h" using fed_reachable_range [OF wfh fi] by blast
  note reads = sorted_reads_earlier [OF wfh d s pf inA]
  have onL: "val (h1 ! (L ! i)) = val (h2 ! (L ! i))" if "i < length L" for i
    using that
  proof (induction i rule: less_induct)
    case (less i)
    let ?m = "L ! i"
    have "?m \<in> set L" using less.prems by (rule nth_mem)
    then have mA: "?m \<in> ?A" unfolding s .
    then have ml: "?m < length h" using inA by simp
    have "forward_value tm h1 ?m = forward_value tm h2 ?m"
    proof (rule forward_value_cong)
      show "kind (h1 ! ?m) = kind (h2 ! ?m)"
        using same_links_fields(1) [OF sl1 ml] same_links_fields(1) [OF sl2 ml] by simp
      show "inbound_nodes (h1 ! ?m) = inbound_nodes (h2 ! ?m)"
        using same_links_fields(2) [OF sl1 ml] same_links_fields(2) [OF sl2 ml] by simp
    next
      fix p assume "p \<in> set (inbound_nodes (h2 ! ?m))"
      then have p: "p \<in> set (inbound_nodes (h ! ?m))"
        using same_links_fields(2) [OF sl2 ml] by simp
      have "p < length h \<and> p \<notin> set (drop i L)"
        by (rule reads [rule_format, OF less.prems p])
      then have pl: "p < length h" and pd: "p \<notin> set (drop i L)" by simp_all
      show "val (h1 ! p) = val (h2 ! p)"
      proof (cases "p \<in> ?A")
        case True
        have "set L = set (take i L) \<union> set (drop i L)"
          by (metis append_take_drop_id set_append)
        then have "p \<in> set (take i L)" using True s pd by blast
        then obtain j where j: "j < length (take i L)" "take i L ! j = p"
          unfolding in_set_conv_nth by blast
        then have "j < i" "j < length L" "L ! j = p" using less.prems by simp_all
        then show ?thesis using less.IH [of j] by blast
      next
        case False
        then show ?thesis using o1 o2 pl by simp
      qed
    next
      assume "kind (h2 ! ?m) = Input"
      then have "kind (h ! ?m) = Input" using same_links_fields(1) [OF sl2 ml] by simp
      then have "val (h1 ! ?m) = the (map_of feed_dict ?m)"
        "val (h2 ! ?m) = the (map_of feed_dict ?m)" using i1 i2 mA by blast+
      then show "val (h1 ! ?m) = val (h2 ! ?m)" by (simp only:)
    qed
    moreover have "forward_value tm h1 ?m = Inr (val (h1 ! ?m))" using t1 mA by blast
    moreover have "forward_value tm h2 ?m = Inr (val (h2 ! ?m))" using t2 mA by blast
    ultimately have "Inr (val (h1 ! ?m)) = (Inr (val (h2 ! ?m)) :: error + 'a option)"
      by (simp only:)
    then show ?case by (simp only: sum.inject)
  qed
  have sl: "same_links h1 h2" using sl1 same_links_sym [OF sl2] by (rule same_links_trans)
  have l2: "length h2 = length h" using sl2 by (simp add: same_links_def)
  show ?thesis
  proof (rule heap_eqI [OF sl], intro allI impI)
    fix n assume "n < length h2"
    then have n: "n < length h" using l2 by simp
    show "val (h1 ! n) = val (h2 ! n)"
    proof (cases "n \<in> ?A")
      case True
      then have "n \<in> set L" unfolding s .
      then obtain i where "i < length L" "L ! i = n" unfolding in_set_conv_nth by blast
      then show ?thesis using onL [of i] by simp
    next
      case False
      then show ?thesis using o1 o2 n by simp
    qed
  qed
qed

text \<open>
  C8. On a well linked store, with Input nodes as the keys of the feed dictionary: when
  \<^verbatim>\<open>topological_sort\<close> followed by \<^verbatim>\<open>forward_pass\<close> returns the value \<open>v\<close> for the output node,
  running the two again on the store as the first run left it, with the same feed dictionary
  and any other choices of \<^verbatim>\<open>S.pop()\<close>, returns normally with the same value \<open>v\<close> and leaves the
  store as it was. Also, two runs from the same store that differ only in the choices of
  \<^verbatim>\<open>S.pop()\<close> and both return a value return the same value, and leave the same store.
\<close>

theorem rerun_same_output:
  assumes "wf_heap h" "feed_inputs h feed_dict"
    and "run_graph tm tie1 h feed_dict output_node = Some (Inr v, h1)"
  shows "run_graph tm tie2 h1 feed_dict output_node = Some (Inr v, h1)
       \<and> (\<forall>v2 h2. run_graph tm tie2 h feed_dict output_node = Some (Inr v2, h2)
             \<longrightarrow> v2 = v \<and> h2 = h1)"
proof -
  from first_run_settled [OF assms] obtain L where
    se: "settled tm h feed_dict h1" and v: "v = val (h1 ! output_node)"
    and ac: "acyclic (graph_edges h feed_dict)"
    and dist: "\<forall>n\<in>reachable h (map fst feed_dict). distinct (outbound_nodes (h ! n))"
    and L: "distinct L" "set L = reachable h (map fst feed_dict)"
      "preds_first h (reachable h (map fst feed_dict)) L"
    by blast
  have 1: "run_graph tm tie2 h1 feed_dict output_node = Some (Inr v, h1)"
    unfolding v by (rule settled_rerun [OF assms(1,2) ac dist se])
  have 2: "v2 = v \<and> h2 = h1"
    if r2: "run_graph tm tie2 h feed_dict output_node = Some (Inr v2, h2)" for v2 h2
  proof -
    from first_run_settled [OF assms(1,2) r2] have
      se2: "settled tm h feed_dict h2" and v2: "v2 = val (h2 ! output_node)" by simp_all
    have "h2 = h1" by (rule settled_unique [OF assms(1,2) se2 se L])
    then show ?thesis using v v2 by simp
  qed
  show ?thesis
  proof (intro conjI allI impI)
    show "run_graph tm tie2 h1 feed_dict output_node = Some (Inr v, h1)" by (rule 1)
  next
    fix v2 h2 assume "run_graph tm tie2 h feed_dict output_node = Some (Inr v2, h2)"
    then show "v2 = v" "h2 = h1" using 2 by blast+
  qed
qed

lemma first_add_run:
  "run_graph int_math first_ready add_graph add_feed 2 =
     Some (Inr (Some 15), set_value 2 (Some 15) fed_add_graph)"
proof -
  have m: "tm_add int_math 5 10 = Inr 15" by (simp add: int_math_def)
  have "run_graph int_math first_ready add_graph add_feed 2 =
      Some (forward_pass int_math fed_add_graph 2
        (if first_ready 0 mod 2 = 0 then [0, 1, 2] else [1, 0, 2]))"
    unfolding run_graph_def add_graph_sorted by simp
  then show ?thesis unfolding fed_add_graph_forward [OF m] .
qed

theorem rerun_same_output_witness:
  "wf_heap add_graph \<and> feed_inputs add_graph add_feed
   \<and> run_graph int_math first_ready add_graph add_feed 2 =
       Some (Inr (Some 15), set_value 2 (Some 15) fed_add_graph)
   \<and> run_graph int_math last_ready (set_value 2 (Some 15) fed_add_graph) add_feed 2 =
       Some (Inr (Some 15), set_value 2 (Some 15) fed_add_graph)"
proof -
  note t = rerun_same_output [OF wf_add_graph feed_add_graph first_add_run, of last_ready]
  show ?thesis
    by (intro conjI) (rule wf_add_graph feed_add_graph first_add_run t [THEN conjunct1])+
qed

end
